theory Spec2Isabelle
  imports Complex_Main "HOL-Library.Word"
begin

unbundle bit_operations_syntax

section \<open>Machine arithmetic\<close>

text \<open>
  An \<^verbatim>\<open>int\<close> has 32 bits. Overflow of a signed operation is undefined in C++; the model
  takes it as the wrap-around of two's complement, which is what the compiled code does.
  Where the values provably stay in range the model uses the integers as they are.
\<close>

definition int32 :: "int \<Rightarrow> int" where
  "int32 x = (x + 2 ^ 31) mod 2 ^ 32 - 2 ^ 31"

text \<open>
  A \<^verbatim>\<open>double\<close> is modelled by the real number it denotes. In IEEE 754 arithmetic the
  operations \<open>+\<close>, \<open>-\<close>, \<open>*\<close>, \<open>/\<close> and the square root return the exact result rounded
  to a double: \<open>rnd\<close> is that rounding. The cosine and sine of the C library are not
  specified to the last bit: \<open>fcos\<close> and \<open>fsin\<close> stand for them. The three functions are
  parameters of the model, and every theorem holds for all of them, so also for the
  machine's. Overflow to infinity and NaN operands are outside the model; where the code
  is certain to produce a NaN (the division by zero in \<^verbatim>\<open>get_twiddle\<close>) the model has a
  fault. The conversion of an \<^verbatim>\<open>int\<close> or \<^verbatim>\<open>unsigned int\<close> to \<^verbatim>\<open>double\<close> is exact.
\<close>

record fp_arith =
  rnd :: "real \<Rightarrow> real"
  fcos :: "real \<Rightarrow> real"
  fsin :: "real \<Rightarrow> real"

text \<open>The arithmetic without rounding, used in the examples.\<close>

definition exact_arith :: fp_arith where
  "exact_arith = \<lparr>rnd = (\<lambda>x. x), fcos = cos, fsin = sin\<rparr>"

section \<open>Samples (fft\_types.h)\<close>

text \<open>\<^verbatim>\<open>struct complex_t { double real; double imag; ... }\<close> with its operators \<open>+\<close>, \<open>-\<close>,
  \<open>*\<close> and \<^verbatim>\<open>magnitude\<close>.\<close>

datatype complex_t = Complex_t (real_c: real) (imag: real)

definition c_zero :: complex_t where
  "c_zero = Complex_t 0 0"

definition c_add :: "fp_arith \<Rightarrow> complex_t \<Rightarrow> complex_t \<Rightarrow> complex_t" where
  "c_add fp a b = Complex_t (rnd fp (real_c a + real_c b)) (rnd fp (imag a + imag b))"

definition c_sub :: "fp_arith \<Rightarrow> complex_t \<Rightarrow> complex_t \<Rightarrow> complex_t" where
  "c_sub fp a b = Complex_t (rnd fp (real_c a - real_c b)) (rnd fp (imag a - imag b))"

definition c_mul :: "fp_arith \<Rightarrow> complex_t \<Rightarrow> complex_t \<Rightarrow> complex_t" where
  "c_mul fp a b =
     Complex_t (rnd fp (rnd fp (real_c a * real_c b) - rnd fp (imag a * imag b)))
               (rnd fp (rnd fp (real_c a * imag b) + rnd fp (imag a * real_c b)))"

definition magnitude :: "fp_arith \<Rightarrow> complex_t \<Rightarrow> real" where
  "magnitude fp c =
     rnd fp (sqrt (rnd fp (rnd fp (real_c c * real_c c) + rnd fp (imag c * imag c))))"

section \<open>DMA (dma.h)\<close>

text \<open>
  The registers of the module. Every \<^verbatim>\<open>sc_signal\<close> read in a clocked method returns the
  value before the edge, and of several writes to one signal in one evaluation the last
  one wins; so the step below reads from the state \<open>s\<close> before the edge and collects the
  writes in the order of the source. The address bus has \<^verbatim>\<open>ADDR_WIDTH\<close> bits (type
  \<open>'a\<close>) and wraps; \<^verbatim>\<open>sample_counter\<close> is only incremented below \<^verbatim>\<open>num_samples\<close>, so it
  never overflows and is an \<^typ>\<open>int\<close>.
\<close>

record (overloaded) 'a dma_state =
  busy :: bool
  mem_addr :: "'a word"
  active :: bool
  sample_counter :: int
  read_req :: bool
  read_wait :: bool
  current_addr :: "'a word"

definition DMA_reset :: "'a::len dma_state" where
  "DMA_reset = \<lparr>busy = False, mem_addr = 0, active = False, sample_counter = 0,
                read_req = False, read_wait = False, current_addr = 0\<rparr>"

text \<open>\<^verbatim>\<open>DMA::seq_logic\<close>, with the input ports \<^verbatim>\<open>rst\<close>, \<^verbatim>\<open>start\<close>, \<^verbatim>\<open>base_addr\<close> and
  \<^verbatim>\<open>num_samples\<close> as arguments.\<close>

definition DMA_seq_logic ::
  "bool \<Rightarrow> bool \<Rightarrow> 'a::len word \<Rightarrow> int \<Rightarrow> 'a dma_state \<Rightarrow> 'a dma_state" where
  "DMA_seq_logic rst start base_addr num_samples s =
    (if rst then
       s\<lparr>busy := False, mem_addr := 0, active := False, sample_counter := 0,
         read_req := False, read_wait := False, current_addr := 0\<rparr>
     else
       let accept = (start \<and> \<not> active s);
           s1 = (if accept then
                   s\<lparr>active := True, busy := True, mem_addr := base_addr,
                     current_addr := base_addr + 1, sample_counter := 1,
                     read_req := False\<rparr>
                 else s);
           issuing1 = accept;
           count = sample_counter s;
           total = num_samples;
           s2 = (if active s then
                   (if count < total then
                      s1\<lparr>mem_addr := current_addr s,
                         current_addr := current_addr s + 1,
                         sample_counter := count + 1\<rparr>
                    else if \<not> read_req s \<and> \<not> read_wait s then
                      s1\<lparr>active := False, busy := False\<rparr>
                    else s1)
                 else s1);
           issuing_read = (if active s \<and> count < total then True else issuing1)
       in s2\<lparr>read_wait := issuing_read, read_req := read_wait s\<rparr>)"

text \<open>\<^verbatim>\<open>DMA::comb_logic\<close>: the pair (\<^verbatim>\<open>fft_valid\<close>, \<^verbatim>\<open>fft_data\<close>) as a function of
  \<^verbatim>\<open>read_req\<close> and \<^verbatim>\<open>mem_data\<close>. The data bus has \<^verbatim>\<open>DATA_WIDTH\<close> bits (type \<open>'d\<close>);
  \<^verbatim>\<open>raw.range(63, 32).to_uint()\<close> is the bit field 63..32 as an unsigned 32-bit
  integer, \<^verbatim>\<open>raw.to_uint()\<close> the low 32 bits.\<close>

definition DMA_comb_logic :: "bool \<Rightarrow> 'd::len word \<Rightarrow> bool \<times> complex_t" where
  "DMA_comb_logic rd_req raw =
    (if rd_req then
       (if LENGTH('d) = 64 then
          let r_int = unat (take_bit 32 (drop_bit 32 raw));
              i_int = unat (take_bit 32 raw)
          in (True, Complex_t (real r_int) (real i_int))
        else (True, Complex_t (real (unat (take_bit 32 raw))) 0))
     else (False, Complex_t 0 0))"

definition fft_valid :: "'a dma_state \<Rightarrow> 'd::len word \<Rightarrow> bool" where
  "fft_valid s raw = fst (DMA_comb_logic (read_req s) raw)"

definition fft_data :: "'a dma_state \<Rightarrow> 'd::len word \<Rightarrow> complex_t" where
  "fft_data s raw = snd (DMA_comb_logic (read_req s) raw)"

section \<open>Memory read port (memory.h)\<close>

text \<open>
  \<^verbatim>\<open>Memory::read\<close> for one read port: the value written to \<^verbatim>\<open>data_out\<close> at a clock edge,
  from the address \<^verbatim>\<open>raddr\<close> before the edge, which the method first narrows to an
  \<^verbatim>\<open>unsigned int\<close>. The array \<^verbatim>\<open>mem[MEM_SIZE]\<close> is a list of \<^verbatim>\<open>MEM_SIZE\<close> words. The write
  port is not modelled: the theorems that use the memory observe a transfer while the
  contents stay as they are.
\<close>

definition Memory_read :: "bool \<Rightarrow> 'd::len word list \<Rightarrow> 'a::len word \<Rightarrow> 'd word" where
  "Memory_read rst mem raddr =
    (if \<not> rst then
       (let addr = unat raddr mod 2 ^ 32 in if addr < length mem then mem ! addr else 0)
     else 0)"

text \<open>A DMA wired to a read port of the memory, as in \<^verbatim>\<open>tb_dma.cpp\<close> and
  \<^verbatim>\<open>tb_interleaved_fft.h\<close>: the pair of the DMA's registers and the memory's \<^verbatim>\<open>data_out\<close>
  register, which is the DMA's \<^verbatim>\<open>mem_data\<close>. Both are clocked by the same edge and read
  each other's value before the edge.\<close>

definition DMA_mem_clock ::
  "'d::len word list \<Rightarrow> bool \<Rightarrow> bool \<Rightarrow> 'a::len word \<Rightarrow> int \<Rightarrow>
   'a dma_state \<times> 'd word \<Rightarrow> 'a dma_state \<times> 'd word" where
  "DMA_mem_clock mem rst start base_addr num_samples sd =
    (DMA_seq_logic rst start base_addr num_samples (fst sd),
     Memory_read rst mem (mem_addr (fst sd)))"

text \<open>Running the DMA over a list of inputs (\<^verbatim>\<open>start\<close>, \<^verbatim>\<open>base_addr\<close>, \<^verbatim>\<open>num_samples\<close>), one
  per clock edge, with \<^verbatim>\<open>rst\<close> low.\<close>

fun DMA_run :: "(bool \<times> 'a::len word \<times> int) list \<Rightarrow> 'a dma_state \<Rightarrow> 'a dma_state" where
  "DMA_run [] s = s"
| "DMA_run ((start, base_addr, num_samples) # ins) s =
     DMA_run ins (DMA_seq_logic False start base_addr num_samples s)"

fun DMA_mem_run ::
  "'d::len word list \<Rightarrow> (bool \<times> 'a::len word \<times> int) list \<Rightarrow>
   'a dma_state \<times> 'd word \<Rightarrow> 'a dma_state \<times> 'd word" where
  "DMA_mem_run mem [] sd = sd"
| "DMA_mem_run mem ((start, base_addr, num_samples) # ins) sd =
     DMA_mem_run mem ins (DMA_mem_clock mem False start base_addr num_samples sd)"

section \<open>Stage (stage.h)\<close>

text \<open>C++ integer division truncates towards zero and \<^verbatim>\<open>%\<close> is its remainder.\<close>

definition c_div :: "int \<Rightarrow> int \<Rightarrow> int" where
  "c_div a b = sgn a * sgn b * (\<bar>a\<bar> div \<bar>b\<bar>)"

definition c_mod :: "int \<Rightarrow> int \<Rightarrow> int" where
  "c_mod a b = a - b * c_div a b"

text \<open>What C++ leaves undefined or answers with an exception is a fault of the model:
  \<^verbatim>\<open>std::vector::resize\<close> with a negative length converted to \<^verbatim>\<open>size_t\<close> throws
  \<^verbatim>\<open>std::length_error\<close>; indexing a vector out of range, an integer division by zero and
  the cast to \<^verbatim>\<open>int\<close> of the logarithm of a number that is not positive are undefined; a
  floating-point division by zero gives an infinity or a NaN, which is no value of the
  model.\<close>

datatype fault =
  Length_error | Index_out_of_range | Division_by_zero | Undefined_cast | Not_a_number

record stage =
  N_stage :: int
  delay_len :: int
  init_offset :: int
  cnt :: int
  out_data :: complex_t
  buf_in :: "complex_t list"
  buf_out :: "complex_t list"

text \<open>\<^verbatim>\<open>Stage::get_twiddle\<close>. \<open>PI\<close> is the decimal literal of the source, which the compiler
  rounds to a double; \<^verbatim>\<open>-2.0 * PI * k / n\<close> is evaluated from the left, each operation
  rounded. For \<open>n = 0\<close> the quotient is an infinity or a NaN, and so are its cosine and
  sine.\<close>

definition PI :: real where
  "PI = 3.14159265358979323846"

definition get_twiddle :: "fp_arith \<Rightarrow> int \<Rightarrow> int \<Rightarrow> fault + complex_t" where
  "get_twiddle fp k n =
    (if n = 0 then Inl Not_a_number
     else
       let angle = rnd fp (rnd fp (rnd fp (- 2.0 * rnd fp PI) * real_of_int k) / real_of_int n)
       in Inr (Complex_t (fcos fp angle) (fsin fp angle)))"

text \<open>The constructor \<^verbatim>\<open>Stage(name, n, id, offset)\<close>. The signals \<^verbatim>\<open>cnt\<close> and \<^verbatim>\<open>out_data\<close>
  start at their types' default values.\<close>

definition Stage_new :: "int \<Rightarrow> int \<Rightarrow> int \<Rightarrow> fault + stage" where
  "Stage_new n stage_id offset =
    (let dl = c_div n 2 in
     if dl < 0 then Inl Length_error
     else Inr \<lparr>N_stage = n, delay_len = dl, init_offset = offset, cnt = 0,
               out_data = Complex_t 0 0,
               buf_in = replicate (nat dl) (Complex_t 0 0),
               buf_out = replicate (nat dl) (Complex_t 0 0)\<rparr>)"

text \<open>\<^verbatim>\<open>std::fill(buf.begin(), buf.end(), complex_t(0,0))\<close>.\<close>

definition fill_zero :: "complex_t list \<Rightarrow> complex_t list" where
  "fill_zero buf = replicate (length buf) (Complex_t 0 0)"

text \<open>\<^verbatim>\<open>Stage::process\<close>, with the input ports \<^verbatim>\<open>rst\<close>, \<^verbatim>\<open>enable\<close>, \<^verbatim>\<open>sync\<close> and \<^verbatim>\<open>in_data\<close>
  as arguments. The buffers are plain vectors, written at once; \<^verbatim>\<open>cnt\<close> and \<^verbatim>\<open>out_data\<close>
  are signals. The counter stays below \<^verbatim>\<open>N_stage\<close>, so \<open>c + 1\<close> does not overflow.\<close>

definition Stage_process ::
  "fp_arith \<Rightarrow> bool \<Rightarrow> bool \<Rightarrow> bool \<Rightarrow> complex_t \<Rightarrow> stage \<Rightarrow> fault + stage" where
  "Stage_process fp rst enable sync in_data s =
    (if rst then
       Inr (s\<lparr>cnt := init_offset s, out_data := Complex_t 0 0,
              buf_in := fill_zero (buf_in s), buf_out := fill_zero (buf_out s)\<rparr>)
     else if enable then
       let c = (if sync then init_offset s else cnt s);
           bi = (if sync then fill_zero (buf_in s) else buf_in s);
           bo = (if sync then fill_zero (buf_out s) else buf_out s);
           input = in_data
       in
         if c < delay_len s then
           (if c < 0 \<or> length bi \<le> nat c \<or> length bo \<le> nat c then Inl Index_out_of_range
            else if N_stage s = 0 then Inl Division_by_zero
            else Inr (s\<lparr>buf_in := bi[nat c := input], buf_out := bo,
                        out_data := bo ! nat c,
                        cnt := c_mod (c + 1) (N_stage s)\<rparr>))
         else
           let k = c - delay_len s in
           (if k < 0 \<or> length bi \<le> nat k \<or> length bo \<le> nat k then Inl Index_out_of_range
            else if N_stage s = 0 then Inl Division_by_zero
            else
              let val_a = bi ! nat k;
                  val_b = input
              in case get_twiddle fp k (N_stage s) of
                   Inl e \<Rightarrow> Inl e
                 | Inr w \<Rightarrow>
                     let sum = c_add fp val_a val_b;
                         diff = c_mul fp (c_sub fp val_a val_b) w
                     in Inr (s\<lparr>buf_in := bi, buf_out := bo[nat k := diff],
                               out_data := sum,
                               cnt := c_mod (c + 1) (N_stage s)\<rparr>))
     else Inr s)"

text \<open>A well-formed stage: an even size of at least 2, buffers of \<^verbatim>\<open>delay_len\<close> slots,
  offset and counter within the period. The FFT builds such stages for every power of two
  from 2 on, and every clock edge keeps them so.\<close>

definition stage_ok :: "stage \<Rightarrow> bool" where
  "stage_ok s =
    (2 \<le> N_stage s \<and> N_stage s = 2 * delay_len s \<and>
     length (buf_in s) = nat (delay_len s) \<and> length (buf_out s) = nat (delay_len s) \<and>
     0 \<le> init_offset s \<and> init_offset s < N_stage s \<and>
     0 \<le> cnt s \<and> cnt s < N_stage s)"


section \<open>FFT (fft.h)\<close>

text \<open>\<^verbatim>\<open>(int)log2(N)\<close> for \<open>N \<ge> 1\<close>: the number of halvings that lead to 1. The library
  function is taken at its mathematical value, which the cast truncates.\<close>

fun ilog2 :: "nat \<Rightarrow> nat" where
  "ilog2 n = (if n < 2 then 0 else Suc (ilog2 (n div 2)))"

declare ilog2.simps [simp del]

text \<open>The state of the module: the configuration fixed by the constructor, the stages
  (each holds the signal it drives, \<^verbatim>\<open>stage_signals[i]\<close> or \<^verbatim>\<open>final_stage_out\<close>, as its
  \<^verbatim>\<open>out_data\<close>) and the registers. \<^verbatim>\<open>internal_cnt\<close> runs freely, wraps around after
  \<open>2^31\<close> enabled edges and is never read.\<close>

record fft =
  N_fft :: int
  num_stages :: int
  latency_cycles :: int
  stages :: "stage list"
  samples_in_cnt :: int
  flushing :: bool
  valid_pipe :: "bool list"
  out_cnt_reg :: int
  internal_cnt :: int

text \<open>The loop of the constructor that instantiates the stages,
  \<^verbatim>\<open>for (int i = 0; i < num_stages; i++)\<close>, with its accumulator \<^verbatim>\<open>total_latency\<close>.
  \<^verbatim>\<open>N >> i\<close> is \<open>N div 2 ^ i\<close> for the positive \<open>N\<close> that reach the loop.\<close>

function FFT_stage_loop ::
  "int \<Rightarrow> nat \<Rightarrow> nat \<Rightarrow> int \<Rightarrow> stage list \<Rightarrow> fault + (stage list \<times> int)" where
  "FFT_stage_loop n_points nstages i total_latency sts =
    (if i < nstages then
       let current_N = n_points div 2 ^ i in
       if current_N = 0 then Inl Division_by_zero
       else
         let offset = c_mod (current_N - c_mod total_latency current_N) current_N in
         case Stage_new current_N (int i) offset of
           Inl e \<Rightarrow> Inl e
         | Inr st \<Rightarrow>
             let stage_latency = c_div current_N 2 in
             FFT_stage_loop n_points nstages (Suc i) (total_latency + (stage_latency + 1))
               (sts @ [st])
     else Inr (sts, total_latency))"
  by pat_completeness auto

termination
  by (relation "measure (\<lambda>(n_points, nstages, i, total_latency, sts). nstages - i)") auto

declare FFT_stage_loop.simps [simp del]

text \<open>The constructor \<^verbatim>\<open>FFT(name, n_points)\<close>.\<close>

definition FFT_new :: "int \<Rightarrow> fault + fft" where
  "FFT_new n_points =
    (if n_points < 1 then Inl Undefined_cast
     else
       let nstages = ilog2 (nat n_points) in
       case FFT_stage_loop n_points nstages 0 0 [] of
         Inl e \<Rightarrow> Inl e
       | Inr (sts, total_latency) \<Rightarrow>
           Inr \<lparr>N_fft = n_points, num_stages = int nstages,
                 latency_cycles = total_latency, stages = sts,
                 samples_in_cnt = 0, flushing = False,
                 valid_pipe = replicate (nat total_latency) False,
                 out_cnt_reg = 0, internal_cnt = 0\<rparr>)"

text \<open>The scan of \<^verbatim>\<open>FFT::control_logic\<close> over the validity shift register, which stops at
  the first entry that is set.\<close>

fun any_valid_in_pipe :: "bool list \<Rightarrow> bool" where
  "any_valid_in_pipe [] = False"
| "any_valid_in_pipe (v # vs) = (if v then True else any_valid_in_pipe vs)"

text \<open>\<^verbatim>\<open>FFT::control_logic\<close>: the pair (\<^verbatim>\<open>internal_enable\<close>, \<^verbatim>\<open>stage_sync\<close>). The method is
  sensitive to every signal it reads, so the two signals are this function of the current
  values.\<close>

definition FFT_control_logic :: "bool \<Rightarrow> fft \<Rightarrow> bool \<times> bool" where
  "FFT_control_logic in_valid f =
    (let valid_in = in_valid;
         any_valid = any_valid_in_pipe (valid_pipe f);
         active_now = (valid_in \<or> any_valid);
         sync = (samples_in_cnt f = 0 \<and> valid_in \<and> \<not> any_valid)
     in (active_now, sync))"

definition internal_enable :: "bool \<Rightarrow> fft \<Rightarrow> bool" where
  "internal_enable in_valid f = fst (FFT_control_logic in_valid f)"

definition stage_sync :: "bool \<Rightarrow> fft \<Rightarrow> bool" where
  "stage_sync in_valid f = snd (FFT_control_logic in_valid f)"

text \<open>The shift of the validity register: the signals \<^verbatim>\<open>valid_pipe[i]\<close> for \<open>i \<ge> 1\<close> take
  the value of \<^verbatim>\<open>valid_pipe[i-1]\<close> before the edge, \<^verbatim>\<open>valid_pipe[0]\<close> takes \<^verbatim>\<open>valid_in\<close>.\<close>

definition shift_valid_pipe :: "bool \<Rightarrow> bool list \<Rightarrow> bool list" where
  "shift_valid_pipe valid_in vp =
    (if length vp > 0 then valid_in # map (\<lambda>i. vp ! (i - 1)) [1..<length vp] else vp)"

text \<open>\<^verbatim>\<open>FFT::seq_logic\<close>, with the values it reads from \<^verbatim>\<open>rst\<close>, \<^verbatim>\<open>internal_enable\<close>,
  \<^verbatim>\<open>stage_sync\<close> and \<^verbatim>\<open>in_valid\<close> as arguments. \<open>N \<ge> 1\<close> in every constructed FFT, so the
  remainder by \<open>N\<close> is defined; \<^verbatim>\<open>samples_in_cnt\<close> and \<^verbatim>\<open>out_cnt_reg\<close> stay below \<open>N\<close>, so
  their increments do not overflow.\<close>

definition FFT_seq_logic :: "bool \<Rightarrow> bool \<Rightarrow> bool \<Rightarrow> bool \<Rightarrow> fft \<Rightarrow> fft" where
  "FFT_seq_logic rst enabled sync valid_in f =
    (if rst then
       f\<lparr>internal_cnt := 0, samples_in_cnt := 0, out_cnt_reg := N_fft f - 1,
         valid_pipe := replicate (length (valid_pipe f)) False\<rparr>
     else
       let s_in = samples_in_cnt f in
       if enabled then
         let vp = valid_pipe f;
             f1 = f\<lparr>internal_cnt := int32 (internal_cnt f + 1)\<rparr>;
             f2 = f1\<lparr>valid_pipe := shift_valid_pipe valid_in vp\<rparr>;
             f3 = (if valid_in then
                     (if s_in = N_fft f - 1 then f2\<lparr>samples_in_cnt := 0\<rparr>
                      else f2\<lparr>samples_in_cnt := s_in + 1\<rparr>)
                   else f2);
             will_be_valid = (if length vp > 1 then vp ! (length vp - 2)
                              else if length vp = 1 then valid_in else False);
             f4 = f3\<lparr>flushing := will_be_valid\<rparr>;
             f5 = (if will_be_valid then
                     f4\<lparr>out_cnt_reg := c_mod (out_cnt_reg f + 1) (N_fft f)\<rparr>
                   else f4);
             f6 = (if sync then f5\<lparr>out_cnt_reg := N_fft f - 1\<rparr> else f5)
         in f6
       else f)"

text \<open>\<^verbatim>\<open>FFT::comb_logic\<close>: what the method writes to the output ports when it runs in the
  state \<open>f\<close> and reads \<^verbatim>\<open>rst\<close> and \<^verbatim>\<open>internal_enable\<close> as given. The method runs when
  \<^verbatim>\<open>rst\<close>, \<^verbatim>\<open>internal_cnt\<close>, \<^verbatim>\<open>final_stage_out\<close> or an entry of \<^verbatim>\<open>valid_pipe\<close> changes, and
  the ports keep what it wrote. \<^verbatim>\<open>out_valid\<close>, \<^verbatim>\<open>out_index\<close>, \<^verbatim>\<open>out_data\<close> and \<^verbatim>\<open>in_index\<close>
  depend on \<^verbatim>\<open>rst\<close> and on registers that change only together with \<^verbatim>\<open>internal_cnt\<close> or
  trigger the method themselves, so these ports are this function of the current state.
  The method is not sensitive to \<^verbatim>\<open>internal_enable\<close>: \<open>enable_read\<close> is the value that
  signal had when the method last ran, which may be older than the value
  \<^verbatim>\<open>control_logic\<close> has computed since, so \<^verbatim>\<open>status\<close> can be stale.\<close>

record fft_out =
  status :: bool
  in_index :: int
  out_index :: int
  out_valid :: bool
  fft_out_data :: complex_t

definition FFT_comb_logic :: "bool \<Rightarrow> bool \<Rightarrow> fft \<Rightarrow> fft_out" where
  "FFT_comb_logic rst enable_read f =
    (if rst then
       \<lparr>status = False, in_index = - 1, out_index = - 1, out_valid = False,
        fft_out_data = Complex_t 0 0\<rparr>
     else
       let is_valid = (if length (valid_pipe f) > 0
                       then valid_pipe f ! (length (valid_pipe f) - 1) else False)
       in if is_valid then
            \<lparr>status = (enable_read \<or> flushing f),
             in_index = samples_in_cnt f, out_index = out_cnt_reg f, out_valid = True,
             fft_out_data = (if stages f = [] then Complex_t 0 0
                             else out_data (last (stages f)))\<rparr>
          else
            \<lparr>status = (enable_read \<or> flushing f),
             in_index = samples_in_cnt f, out_index = - 1, out_valid = False,
             fft_out_data = Complex_t 0 0\<rparr>)"

text \<open>One clock edge of the cascade of stages: every stage sees the broadcast \<^verbatim>\<open>enable\<close>
  and \<^verbatim>\<open>sync\<close>; the first reads the module's \<^verbatim>\<open>in_data\<close>, each later one the signal its
  predecessor drove before the edge.\<close>

fun stages_clock ::
  "fp_arith \<Rightarrow> bool \<Rightarrow> bool \<Rightarrow> bool \<Rightarrow> complex_t \<Rightarrow> stage list \<Rightarrow> fault + stage list" where
  "stages_clock fp rst enable sync in_data [] = Inr []"
| "stages_clock fp rst enable sync in_data (s # ss) =
    (case Stage_process fp rst enable sync in_data s of
       Inl e \<Rightarrow> Inl e
     | Inr s' \<Rightarrow>
         (case stages_clock fp rst enable sync (out_data s) ss of
            Inl e \<Rightarrow> Inl e
          | Inr ss' \<Rightarrow> Inr (s' # ss')))"

text \<open>One clock edge of the whole module, for the inputs \<^verbatim>\<open>rst\<close>, \<^verbatim>\<open>in_valid\<close> and
  \<^verbatim>\<open>in_data\<close>.\<close>

definition FFT_clock ::
  "fp_arith \<Rightarrow> bool \<Rightarrow> bool \<Rightarrow> complex_t \<Rightarrow> fft \<Rightarrow> fault + fft" where
  "FFT_clock fp rst in_valid in_data f =
    (let enabled = internal_enable in_valid f;
         sync = stage_sync in_valid f
     in case stages_clock fp rst enabled sync in_data (stages f) of
          Inl e \<Rightarrow> Inl e
        | Inr ss \<Rightarrow> Inr ((FFT_seq_logic rst enabled sync in_valid f)\<lparr>stages := ss\<rparr>))"

text \<open>Running the module over a list of inputs (\<^verbatim>\<open>in_valid\<close>, \<^verbatim>\<open>in_data\<close>), one per clock
  edge, with \<^verbatim>\<open>rst\<close> low.\<close>

fun FFT_run :: "fp_arith \<Rightarrow> (bool \<times> complex_t) list \<Rightarrow> fft \<Rightarrow> fault + fft" where
  "FFT_run fp [] f = Inr f"
| "FFT_run fp ((in_valid, in_data) # ins) f =
    (case FFT_clock fp False in_valid in_data f of
       Inl e \<Rightarrow> Inl e
     | Inr f' \<Rightarrow> FFT_run fp ins f')"

section \<open>InterleavedFFT: the stagger scheduler (interleaved\_fft.h)\<close>

text \<open>The registers of \<^verbatim>\<open>InterleavedFFT::control_logic\<close> with the two configuration values
  it reads. \<open>dma_starts ! i\<close> is the start input of the DMA of core \<open>i\<close>. The DMA and FFT
  cores that the module instantiates are the ones modelled above; the scheduler reads none
  of their signals. \<^verbatim>\<open>hop\<close> is an \<^verbatim>\<open>int\<close>; the products \<open>i * hop\<close> and
  \<open>num_cores * hop\<close>, the bound \<open>num_cores * hop + 2\<close> and the increment of the counter
  are \<^verbatim>\<open>int\<close> operations and wrap around.\<close>

record stagger =
  num_cores :: nat
  hop :: int
  active_stagger :: bool
  stagger_counter :: int
  dma_starts :: "bool list"

definition IFFT_control_logic :: "bool \<Rightarrow> bool \<Rightarrow> stagger \<Rightarrow> stagger" where
  "IFFT_control_logic rst start s =
    (if rst then
       s\<lparr>active_stagger := False, stagger_counter := 0,
         dma_starts := replicate (num_cores s) False\<rparr>
     else
       let accept = (start \<and> \<not> active_stagger s);
           is_active = (if accept then True else active_stagger s);
           cnt_now = (if accept then 0 else stagger_counter s);
           s1 = (if accept then s\<lparr>active_stagger := True, stagger_counter := 0\<rparr> else s)
       in
         if is_active then
           let s2 = s1\<lparr>dma_starts :=
                        map (\<lambda>i. cnt_now = int32 (int i * hop s)) [0..<num_cores s]\<rparr>;
               s3 = s2\<lparr>stagger_counter := int32 (cnt_now + 1)\<rparr>
           in if cnt_now > int32 (int32 (int (num_cores s) * hop s) + 2)
              then s3\<lparr>active_stagger := False\<rparr> else s3
         else s1\<lparr>dma_starts := replicate (num_cores s) False\<rparr>)"

text \<open>The value of the local \<^verbatim>\<open>cnt\<close> that \<^verbatim>\<open>control_logic\<close> compares with \<open>i * hop\<close> at an
  edge: 0 when a start is accepted, the register \<^verbatim>\<open>stagger_counter\<close> otherwise.\<close>

definition stagger_cnt :: "bool \<Rightarrow> stagger \<Rightarrow> int" where
  "stagger_cnt start s = (if start \<and> \<not> active_stagger s then 0 else stagger_counter s)"

text \<open>Running the scheduler over a list of values of \<^verbatim>\<open>start\<close>, one per clock edge, with
  \<^verbatim>\<open>rst\<close> low.\<close>

fun IFFT_run :: "bool list \<Rightarrow> stagger \<Rightarrow> stagger" where
  "IFFT_run [] s = s"
| "IFFT_run (start # ins) s = IFFT_run ins (IFFT_control_logic False start s)"

section \<open>Notions used in the statements and proofs\<close>

text \<open>A DMA with no transfer in progress and no read outstanding.\<close>

definition DMA_idle :: "'a::len dma_state \<Rightarrow> bool" where
  "DMA_idle s = (\<not> active s \<and> \<not> read_req s \<and> \<not> read_wait s)"

text \<open>The expected view of the registers \<open>t\<close> edges after an idle DMA accepted a start
  with base address \<open>b\<close>, when \<open>m\<close> reads are issued in all.\<close>

definition DMA_at :: "nat \<Rightarrow> 'a::len word \<Rightarrow> nat \<Rightarrow> 'a dma_state \<Rightarrow> bool" where
  "DMA_at m b t s =
    (if t \<le> m then
       active s \<and> busy s \<and> sample_counter s = int t \<and> read_wait s \<and>
       read_req s = (2 \<le> t) \<and> mem_addr s = b + of_nat (t - 1) \<and>
       current_addr s = b + of_nat t
     else if t = m + 1 then
       active s \<and> busy s \<and> sample_counter s = int m \<and> \<not> read_wait s \<and> read_req s \<and>
       mem_addr s = b + of_nat (m - 1)
     else if t = m + 2 then
       active s \<and> busy s \<and> sample_counter s = int m \<and> \<not> read_wait s \<and> \<not> read_req s \<and>
       mem_addr s = b + of_nat (m - 1)
     else
       \<not> active s \<and> \<not> busy s \<and> \<not> read_wait s \<and> \<not> read_req s \<and>
       mem_addr s = b + of_nat (m - 1))"

definition DMA_inv :: "'a::len dma_state \<Rightarrow> bool" where
  "DMA_inv s = (active s = busy s \<and> (read_req s \<or> read_wait s \<longrightarrow> busy s))"

text \<open>Inputs for the examples: a start pulse at the first edge with base address 1, and a
  small memory in the format of \<^verbatim>\<open>tb_dma.cpp\<close> (upper half \<open>i + 5\<close>, lower half \<open>2 * i\<close>).\<close>

definition tb_ins :: "nat \<Rightarrow> bool \<times> 12 word \<times> int" where
  "tb_ins = (\<lambda>j. (j = 0, 1, 2))"

definition short_ins :: "int \<Rightarrow> nat \<Rightarrow> bool \<times> 12 word \<times> int" where
  "short_ins n = (\<lambda>j. (j = 0, 1, n))"

definition tb_mem :: "64 word list" where
  "tb_mem = [0x0000000500000000, 0x0000000600000002, 0x0000000700000004]"


text \<open>A DMA in the middle of a transfer of 8 samples from address 1, and a scheduler of
  two cores with hop 1 one edge after it accepted a start.\<close>

definition dma_mid :: "12 dma_state" where
  "dma_mid = \<lparr>busy = True, mem_addr = 3, active = True, sample_counter = 3,
              read_req = True, read_wait = True, current_addr = 4\<rparr>"

definition stagger_mid :: stagger where
  "stagger_mid = \<lparr>num_cores = 2, hop = 1, active_stagger = True, stagger_counter = 1,
                  dma_starts = [True, False]\<rparr>"

text \<open>A stage of size 4 with offset 0 and filled buffers, in its first phase (counter 1)
  and in its second (counter 2, where \<open>k = 0\<close>, and counter 3, where \<open>k = 1\<close>).\<close>

definition stage_p1 :: stage where
  "stage_p1 = \<lparr>N_stage = 4, delay_len = 2, init_offset = 0, cnt = 1,
               out_data = Complex_t 0 0,
               buf_in = [Complex_t 3 1, Complex_t 5 3],
               buf_out = [Complex_t 7 7, Complex_t 8 8]\<rparr>"

definition stage_p2 :: stage where
  "stage_p2 = stage_p1\<lparr>cnt := 2\<rparr>"

definition stage_p3 :: stage where
  "stage_p3 = stage_p1\<lparr>cnt := 3\<rparr>"

text \<open>What the constructor of the FFT establishes for each stage it builds, whatever the
  size; a built stage of even size is a stage in the sense of \<open>stage_ok\<close>.\<close>

definition stage_built :: "stage \<Rightarrow> bool" where
  "stage_built s =
    (2 \<le> N_stage s \<and> delay_len s = N_stage s div 2 \<and>
     length (buf_in s) = nat (delay_len s) \<and> length (buf_out s) = nat (delay_len s) \<and>
     0 \<le> init_offset s \<and> init_offset s < N_stage s \<and> cnt s = 0)"

text \<open>The view of the scheduler's registers after the edge number \<open>t\<close> of a stagger
  sequence (the accepting edge has number 0), and after the sequence is over.\<close>

definition stagger_at :: "stagger \<Rightarrow> nat \<Rightarrow> stagger \<Rightarrow> bool" where
  "stagger_at s0 t s =
    (num_cores s = num_cores s0 \<and> hop s = hop s0 \<and> stagger_counter s = int32 (int t + 1) \<and>
     active_stagger s = (int t < int (num_cores s0) * hop s0 + 3) \<and>
     dma_starts s = map (\<lambda>i. int t = int i * hop s0) [0..<num_cores s0])"

definition stagger_done :: "stagger \<Rightarrow> stagger \<Rightarrow> bool" where
  "stagger_done s0 s =
    (num_cores s = num_cores s0 \<and> hop s = hop s0 \<and> \<not> active_stagger s \<and>
     dma_starts s = replicate (num_cores s0) False)"

text \<open>The scheduler of \<^verbatim>\<open>main.cpp\<close> (two cores, hop 1) after reset, and a single start
  pulse.\<close>

definition stagger_reset :: stagger where
  "stagger_reset = \<lparr>num_cores = 2, hop = 1, active_stagger = False, stagger_counter = 0,
                    dma_starts = [False, False]\<rparr>"

definition one_pulse :: "nat \<Rightarrow> bool" where
  "one_pulse = (\<lambda>j. j = 0)"


text \<open>Two configurations outside the range of the scheduler: two cores with a hop of
  \<open>2^30\<close>, where \<open>num_cores * hop + 2\<close> overflows, and two cores with a hop of \<open>- 1\<close>; and
  the idle state both end in.\<close>

definition stagger_wide :: stagger where
  "stagger_wide = \<lparr>num_cores = 2, hop = 1073741824, active_stagger = False,
                   stagger_counter = 0, dma_starts = [False, False]\<rparr>"

definition stagger_back :: stagger where
  "stagger_back = \<lparr>num_cores = 2, hop = - 1, active_stagger = False,
                   stagger_counter = 0, dma_starts = [False, False]\<rparr>"

section \<open>The DMA's unpacking of memory words\<close>

lemma upper_half_unat: "unat (take_bit 32 (drop_bit 32 raw)) = unat raw div 2 ^ 32" for raw :: "64 word"
proof -
  have "unat raw < 2 ^ 64" using unsigned_less [of raw, where ?'a = nat] by simp
  then have b: "unat raw div 2 ^ 32 < 2 ^ 32" by (simp add: less_mult_imp_div_less)
  have "unat (drop_bit 32 raw) = drop_bit 32 (unat raw)"
    by (rule unat_drop_bit_eq)
  also have "\<dots> = unat raw div 2 ^ 32"
    by (rule drop_bit_eq_div)
  finally have d: "unat (drop_bit 32 raw) = unat raw div 2 ^ 32" .
  have "unat (take_bit 32 (drop_bit 32 raw)) = take_bit 32 (unat (drop_bit 32 raw))"
    by (rule unsigned_take_bit_eq)
  also have "\<dots> = unat raw div 2 ^ 32"
    unfolding d using b by (rule take_bit_nat_eq_self)
  finally show ?thesis .
qed

lemma lower_half_unat: "unat (take_bit 32 raw) = unat raw mod 2 ^ 32" for raw :: "64 word"
proof -
  have "unat (take_bit 32 raw) = take_bit 32 (unat raw)"
    by (rule unsigned_take_bit_eq)
  also have "\<dots> = unat raw mod 2 ^ 32"
    by (rule take_bit_eq_mod)
  finally show ?thesis .
qed

lemma DMA_comb_logic_set_64:
  fixes raw :: "64 word"
  shows "DMA_comb_logic True raw =
      (True, Complex_t (real (unat raw div 2 ^ 32)) (real (unat raw mod 2 ^ 32)))"
  unfolding DMA_comb_logic_def Let_def upper_half_unat unfolding lower_half_unat by simp

lemma DMA_comb_logic_clear: "DMA_comb_logic False raw = (False, Complex_t 0 0)"
  unfolding DMA_comb_logic_def by simp

text \<open>
  C5. For a DMA with a 64-bit data bus, \<^verbatim>\<open>fft_valid\<close> is asserted exactly when
  \<^verbatim>\<open>read_req\<close> is set; then the real component of the sample is the upper 32 bits of the
  memory word read as an unsigned integer (the word divided by \<open>2^32\<close>) and the imaginary
  component the lower 32 bits (the word modulo \<open>2^32\<close>), both non-negative and below
  \<open>2^32\<close>, without sign extension; when \<^verbatim>\<open>read_req\<close> is clear the sample is the zero
  sample.
\<close>

theorem DMA_unpack_64:
  fixes raw :: "64 word"
  shows "fft_valid s raw = read_req s \<and>
         (read_req s \<longrightarrow>
            fft_data s raw = Complex_t (real (unat raw div 2 ^ 32)) (real (unat raw mod 2 ^ 32)) \<and>
            0 \<le> real_c (fft_data s raw) \<and> real_c (fft_data s raw) < 2 ^ 32 \<and>
            0 \<le> imag (fft_data s raw) \<and> imag (fft_data s raw) < 2 ^ 32) \<and>
         (\<not> read_req s \<longrightarrow> fft_data s raw = Complex_t 0 0)"
proof -
  have "unat raw < 2 ^ 64" using unsigned_less [of raw, where ?'a = nat] by simp
  then have b1: "unat raw div 2 ^ 32 < (2::nat) ^ 32"
    by (simp add: less_mult_imp_div_less)
  have b2: "unat raw mod 2 ^ 32 < (2::nat) ^ 32"
    by simp
  have r1: "real (unat raw div 2 ^ 32) < 2 ^ 32"
    using b1 by (metis of_nat_less_iff of_nat_numeral of_nat_power)
  have r2: "real (unat raw mod 2 ^ 32) < 2 ^ 32"
    using b2 by (metis of_nat_less_iff of_nat_numeral of_nat_power)
  show ?thesis
  proof (cases "read_req s")
    case True
    then show ?thesis using r1 r2 by (simp add: fft_valid_def fft_data_def DMA_comb_logic_set_64)
  next
    case False
    then show ?thesis by (simp add: fft_valid_def fft_data_def DMA_comb_logic_clear)
  qed
qed

text \<open>A word with the top bit of both halves set is read as two large positive numbers.\<close>

theorem DMA_unpack_64_witness:
  "fft_valid (DMA_reset\<lparr>read_req := True\<rparr> :: 12 dma_state) (0x80000005FFFFFFFE :: 64 word) \<and>
   fft_data (DMA_reset\<lparr>read_req := True\<rparr> :: 12 dma_state) (0x80000005FFFFFFFE :: 64 word)
     = Complex_t 2147483653 4294967294 \<and>
   \<not> fft_valid (DMA_reset :: 12 dma_state) (0x80000005FFFFFFFE :: 64 word) \<and>
   fft_data (DMA_reset :: 12 dma_state) (0x80000005FFFFFFFE :: 64 word) = Complex_t 0 0"
  using DMA_unpack_64 [of "DMA_reset\<lparr>read_req := True\<rparr> :: 12 dma_state" "0x80000005FFFFFFFE"]
        DMA_unpack_64 [of "DMA_reset :: 12 dma_state" "0x80000005FFFFFFFE"]
  by (simp add: DMA_reset_def)

section \<open>The DMA's transfers\<close>

lemma DMA_run_Cons:
  "DMA_run (x # ins) s =
     DMA_run ins (DMA_seq_logic False (fst x) (fst (snd x)) (snd (snd x)) s)"
  by (cases x) simp

lemma DMA_run_snoc:
  "DMA_run (ins @ [x]) s = DMA_seq_logic False (fst x) (fst (snd x)) (snd (snd x)) (DMA_run ins s)"
  by (induction ins arbitrary: s) (simp_all add: DMA_run_Cons del: DMA_run.simps(2))

lemma DMA_run_Suc:
  "DMA_run (map ins [0..<Suc t]) s =
     DMA_seq_logic False (fst (ins t)) (fst (snd (ins t))) (snd (snd (ins t)))
       (DMA_run (map ins [0..<t]) s)"
  by (simp add: DMA_run_snoc)

lemma DMA_accept_step:
  assumes "DMA_idle s" "1 \<le> m"
  shows "DMA_at m b 1 (DMA_seq_logic False True b n s)"
  using assms by (simp add: DMA_idle_def DMA_at_def DMA_seq_logic_def Let_def)

lemma DMA_issue_step:
  assumes "DMA_at m b t s" "1 \<le> t" "Suc t \<le> m" "int t < n"
  shows "DMA_at m b (Suc t) (DMA_seq_logic False st b' n s)"
  using assms by (auto simp add: DMA_at_def DMA_seq_logic_def Let_def)

lemma DMA_drain_step:
  assumes "DMA_at m b t s" "1 \<le> m" "m \<le> t" "t \<le> m + 2" "n \<le> int m"
  shows "DMA_at m b (Suc t) (DMA_seq_logic False st b' n s)"
  using assms by (auto simp add: DMA_at_def DMA_seq_logic_def Let_def)

lemma DMA_transfer_trace:
  assumes idle: "DMA_idle s0"
    and start: "fst (ins 0)"
    and m: "1 \<le> m"
    and issue: "\<And>j. 1 \<le> j \<Longrightarrow> j < m \<Longrightarrow> int j < snd (snd (ins j))"
    and stop: "\<And>j. m \<le> j \<Longrightarrow> j < m + 3 \<Longrightarrow> snd (snd (ins j)) \<le> int m"
  shows "1 \<le> t \<Longrightarrow> t \<le> m + 3 \<Longrightarrow> DMA_at m (fst (snd (ins 0))) t (DMA_run (map ins [0..<t]) s0)"
proof (induction t)
  case 0
  then show ?case by simp
next
  case (Suc t)
  show ?case
  proof (cases "t = 0")
    case True
    have "DMA_at m (fst (snd (ins 0))) 1
            (DMA_seq_logic False True (fst (snd (ins 0))) (snd (snd (ins 0))) s0)"
      using idle m by (rule DMA_accept_step)
    then show ?thesis using True start by (simp add: DMA_run_Cons)
  next
    case False
    then have t1: "1 \<le> t" by simp
    have prev: "DMA_at m (fst (snd (ins 0))) t (DMA_run (map ins [0..<t]) s0)"
      using Suc t1 by simp
    show ?thesis
    proof (cases "Suc t \<le> m")
      case True
      then have "int t < snd (snd (ins t))" using issue t1 by simp
      with prev t1 True show ?thesis
        unfolding DMA_run_Suc by (rule DMA_issue_step)
    next
      case False
      then have mt: "m \<le> t" by simp
      moreover have "t \<le> m + 2" using Suc.prems by simp
      moreover have "snd (snd (ins t)) \<le> int m" using stop mt Suc.prems by simp
      ultimately show ?thesis
        unfolding DMA_run_Suc using prev m by (intro DMA_drain_step) auto
    qed
  qed
qed


lemma DMA_no_deassert_step:
  assumes "busy s" "read_req s \<or> read_wait s"
  shows "busy (DMA_seq_logic False start b k s)"
  using assms by (auto simp add: DMA_seq_logic_def Let_def)

lemma DMA_inv_reset: "DMA_inv DMA_reset"
  by (simp add: DMA_inv_def DMA_reset_def)

lemma DMA_inv_step: "DMA_inv s \<Longrightarrow> DMA_inv (DMA_seq_logic rst start b k s)"
  by (auto simp add: DMA_inv_def DMA_seq_logic_def Let_def)

lemma DMA_inv_run: "DMA_inv s \<Longrightarrow> DMA_inv (DMA_run pre s)"
  by (induction pre arbitrary: s) (simp_all add: DMA_run_Cons DMA_inv_step del: DMA_run.simps(2))

text \<open>
  C4. An idle DMA accepts a start at the first edge, and \<^verbatim>\<open>num_samples\<close> is held at a positive
  \<open>n\<close>. Then \<^verbatim>\<open>busy\<close> is true after each of the edges \<open>1 .. n + 2\<close>: reads are issued at the
  edges \<open>1 .. n\<close> (\<^verbatim>\<open>read_wait\<close>), their data is presented after the edges \<open>2 .. n + 1\<close>
  (\<^verbatim>\<open>read_req\<close>, which is \<^verbatim>\<open>fft_valid\<close>), the consumer captures the last one at edge
  \<open>n + 2\<close>, and only edge \<open>n + 3\<close> clears \<^verbatim>\<open>busy\<close>. No edge without reset clears \<^verbatim>\<open>busy\<close>
  while \<^verbatim>\<open>read_req\<close> or \<^verbatim>\<open>read_wait\<close> is set, and in every state reached from reset a set
  \<^verbatim>\<open>read_req\<close> or \<^verbatim>\<open>read_wait\<close> comes with \<^verbatim>\<open>busy\<close>. The values of \<^verbatim>\<open>start\<close> and
  \<^verbatim>\<open>base_addr\<close> after the first edge are arbitrary.
\<close>

theorem DMA_busy_covers_transfer:
  fixes s0 :: "'a::len dma_state" and ins :: "nat \<Rightarrow> bool \<times> 'a word \<times> int"
  assumes idle: "\<not> active s0" "\<not> read_req s0" "\<not> read_wait s0"
    and start: "fst (ins 0)"
    and pos: "0 < n"
    and held: "\<forall>j\<ge>1. snd (snd (ins j)) = n"
  shows "(\<forall>t. 1 \<le> t \<and> t \<le> nat n + 2 \<longrightarrow> busy (DMA_run (map ins [0..<t]) s0)) \<and>
         (\<forall>t. 1 \<le> t \<and> t \<le> nat n + 3 \<longrightarrow>
              read_wait (DMA_run (map ins [0..<t]) s0) = (t \<le> nat n)) \<and>
         (\<forall>t. 1 \<le> t \<and> t \<le> nat n + 3 \<longrightarrow>
              read_req (DMA_run (map ins [0..<t]) s0) = (2 \<le> t \<and> t \<le> nat n + 1)) \<and>
         \<not> busy (DMA_run (map ins [0..<nat n + 3]) s0) \<and>
         (\<forall>(s :: 'a dma_state) st b k.
              busy s \<and> (read_req s \<or> read_wait s) \<longrightarrow> busy (DMA_seq_logic False st b k s)) \<and>
         (\<forall>pre. read_req (DMA_run pre (DMA_reset :: 'a dma_state)) \<or>
                 read_wait (DMA_run pre (DMA_reset :: 'a dma_state))
                 \<longrightarrow> busy (DMA_run pre (DMA_reset :: 'a dma_state)))"
proof -
  define m where "m = nat n"
  have m1: "1 \<le> m" using pos by (simp add: m_def)
  have i0: "DMA_idle s0" using idle by (simp add: DMA_idle_def)
  have iss: "int j < snd (snd (ins j))" if "1 \<le> j" "j < m" for j
    using held pos that by (simp add: m_def)
  have stp: "snd (snd (ins j)) \<le> int m" if "m \<le> j" "j < m + 3" for j
    using held pos m1 that by (simp add: m_def)
  have at: "DMA_at m (fst (snd (ins 0))) t (DMA_run (map ins [0..<t]) s0)"
    if "1 \<le> t" "t \<le> m + 3" for t
    using i0 start m1 iss stp that by (rule DMA_transfer_trace)
  have A: "\<forall>t. 1 \<le> t \<and> t \<le> m + 2 \<longrightarrow> busy (DMA_run (map ins [0..<t]) s0)"
  proof (intro allI impI)
    fix t assume "1 \<le> t \<and> t \<le> m + 2"
    then have "DMA_at m (fst (snd (ins 0))) t (DMA_run (map ins [0..<t]) s0)"
      by (intro at) auto
    with \<open>1 \<le> t \<and> t \<le> m + 2\<close> show "busy (DMA_run (map ins [0..<t]) s0)"
      by (auto simp add: DMA_at_def split: if_splits)
  qed
  have B: "\<forall>t. 1 \<le> t \<and> t \<le> m + 3 \<longrightarrow> read_wait (DMA_run (map ins [0..<t]) s0) = (t \<le> m)"
  proof (intro allI impI)
    fix t assume "1 \<le> t \<and> t \<le> m + 3"
    then have "DMA_at m (fst (snd (ins 0))) t (DMA_run (map ins [0..<t]) s0)"
      by (intro at) auto
    then show "read_wait (DMA_run (map ins [0..<t]) s0) = (t \<le> m)"
      by (auto simp add: DMA_at_def split: if_splits)
  qed
  have C: "\<forall>t. 1 \<le> t \<and> t \<le> m + 3 \<longrightarrow>
              read_req (DMA_run (map ins [0..<t]) s0) = (2 \<le> t \<and> t \<le> m + 1)"
  proof (intro allI impI)
    fix t assume "1 \<le> t \<and> t \<le> m + 3"
    then have "DMA_at m (fst (snd (ins 0))) t (DMA_run (map ins [0..<t]) s0)"
      by (intro at) auto
    with m1 \<open>1 \<le> t \<and> t \<le> m + 3\<close>
    show "read_req (DMA_run (map ins [0..<t]) s0) = (2 \<le> t \<and> t \<le> m + 1)"
      by (auto simp add: DMA_at_def split: if_splits)
  qed
  have "DMA_at m (fst (snd (ins 0))) (m + 3) (DMA_run (map ins [0..<m + 3]) s0)"
    by (intro at) auto
  then have D: "\<not> busy (DMA_run (map ins [0..<m + 3]) s0)"
    by (simp add: DMA_at_def)
  have E: "\<forall>(s :: 'a dma_state) st b k.
              busy s \<and> (read_req s \<or> read_wait s) \<longrightarrow> busy (DMA_seq_logic False st b k s)"
    using DMA_no_deassert_step by blast
  have F: "\<forall>pre. read_req (DMA_run pre (DMA_reset :: 'a dma_state)) \<or>
                 read_wait (DMA_run pre (DMA_reset :: 'a dma_state))
                 \<longrightarrow> busy (DMA_run pre (DMA_reset :: 'a dma_state))"
  proof
    fix pre :: "(bool \<times> 'a word \<times> int) list"
    have "DMA_inv (DMA_run pre (DMA_reset :: 'a dma_state))"
      by (rule DMA_inv_run [OF DMA_inv_reset])
    then show "read_req (DMA_run pre (DMA_reset :: 'a dma_state)) \<or>
               read_wait (DMA_run pre (DMA_reset :: 'a dma_state))
               \<longrightarrow> busy (DMA_run pre (DMA_reset :: 'a dma_state))"
      by (simp add: DMA_inv_def)
  qed
  show ?thesis using A B C D E F unfolding m_def by blast
qed

text \<open>A transfer of two samples after reset: busy after the edges 1 to 4, the last
  sample presented after edge 3, busy cleared by edge 5.\<close>

theorem DMA_busy_covers_transfer_witness:
  "busy (DMA_run (map tb_ins [0..<1]) DMA_reset) \<and>
   busy (DMA_run (map tb_ins [0..<4]) DMA_reset) \<and>
   read_req (DMA_run (map tb_ins [0..<3]) DMA_reset) \<and>
   \<not> read_req (DMA_run (map tb_ins [0..<4]) DMA_reset) \<and>
   \<not> busy (DMA_run (map tb_ins [0..<5]) DMA_reset)"
proof -
  have h: "\<not> active (DMA_reset :: 12 dma_state)" "\<not> read_req (DMA_reset :: 12 dma_state)"
    "\<not> read_wait (DMA_reset :: 12 dma_state)" "fst (tb_ins 0)" "(0::int) < 2"
    "\<forall>j\<ge>1. snd (snd (tb_ins j)) = 2"
    by (simp_all add: DMA_reset_def tb_ins_def)
  note t = DMA_busy_covers_transfer [OF h]
  have b: "busy (DMA_run (map tb_ins [0..<t]) DMA_reset)" if "1 \<le> t" "t \<le> 4" for t
    using t that by simp
  have r: "read_req (DMA_run (map tb_ins [0..<t]) DMA_reset) = (2 \<le> t \<and> t \<le> 3)"
    if "1 \<le> t" "t \<le> 5" for t
    using t that by simp
  have d: "\<not> busy (DMA_run (map tb_ins [0..<5]) DMA_reset)"
    using t by simp
  show ?thesis using b [of 1] b [of 4] r [of 3] r [of 4] d by simp
qed

lemma DMA_mem_run_Cons:
  "DMA_mem_run mem (x # ins) sd =
     DMA_mem_run mem ins (DMA_mem_clock mem False (fst x) (fst (snd x)) (snd (snd x)) sd)"
  by (cases x) simp

lemma DMA_mem_run_snoc:
  "DMA_mem_run mem (ins @ [x]) sd =
     DMA_mem_clock mem False (fst x) (fst (snd x)) (snd (snd x)) (DMA_mem_run mem ins sd)"
  by (induction ins arbitrary: sd) (simp_all add: DMA_mem_run_Cons del: DMA_mem_run.simps(2))

lemma fst_DMA_mem_run: "fst (DMA_mem_run mem ins sd) = DMA_run ins (fst sd)"
  by (induction ins arbitrary: sd)
     (simp_all add: DMA_mem_run_Cons DMA_run_Cons DMA_mem_clock_def
        del: DMA_mem_run.simps(2) DMA_run.simps(2))

lemma snd_DMA_mem_run_Suc:
  "snd (DMA_mem_run mem (map ins [0..<Suc t]) sd) =
     Memory_read False mem (mem_addr (DMA_run (map ins [0..<t]) (fst sd)))"
  by (simp add: DMA_mem_run_snoc DMA_mem_clock_def fst_DMA_mem_run)

text \<open>
  C10. An idle DMA on a 64-bit memory accepts a start at the first edge, and \<^verbatim>\<open>num_samples\<close>
  is at most 1 (zero and negative values included) at the three edges that follow. Then
  exactly one read is issued (\<^verbatim>\<open>read_wait\<close> is set after edge 1 only), \<^verbatim>\<open>mem_addr\<close> stays at
  \<^verbatim>\<open>base_addr\<close>, \<^verbatim>\<open>fft_valid\<close> is asserted after edge 2 only, the memory's \<^verbatim>\<open>data_out\<close> is
  then the word at \<^verbatim>\<open>base_addr\<close> (narrowed to 32 bits, as the memory does; 0 beyond the
  memory's size) and the sample is unpacked from it, and \<^verbatim>\<open>busy\<close> and \<^verbatim>\<open>active\<close> hold
  after the edges 1 to 3 and are cleared by edge 4.
\<close>

theorem DMA_short_transfer_reads_once:
  fixes s0 :: "'a::len dma_state" and ins :: "nat \<Rightarrow> bool \<times> 'a word \<times> int"
    and mem :: "64 word list" and d0 :: "64 word"
  assumes idle: "\<not> active s0" "\<not> read_req s0" "\<not> read_wait s0"
    and start: "fst (ins 0)"
    and short: "\<forall>j\<in>{1, 2, 3}. snd (snd (ins j)) \<le> 1"
  shows "(\<forall>t\<in>{1, 2, 3, 4}.
            read_wait (fst (DMA_mem_run mem (map ins [0..<t]) (s0, d0))) = (t = 1) \<and>
            mem_addr (fst (DMA_mem_run mem (map ins [0..<t]) (s0, d0))) = fst (snd (ins 0)) \<and>
            fft_valid (fst (DMA_mem_run mem (map ins [0..<t]) (s0, d0)))
                      (snd (DMA_mem_run mem (map ins [0..<t]) (s0, d0))) = (t = 2) \<and>
            busy (fst (DMA_mem_run mem (map ins [0..<t]) (s0, d0))) = (t \<le> 3) \<and>
            active (fst (DMA_mem_run mem (map ins [0..<t]) (s0, d0))) = (t \<le> 3)) \<and>
         snd (DMA_mem_run mem (map ins [0..<2]) (s0, d0)) =
           (if unat (fst (snd (ins 0))) mod 2 ^ 32 < length mem
            then mem ! (unat (fst (snd (ins 0))) mod 2 ^ 32) else 0) \<and>
         fft_data (fst (DMA_mem_run mem (map ins [0..<2]) (s0, d0)))
                  (snd (DMA_mem_run mem (map ins [0..<2]) (s0, d0))) =
           Complex_t (real (unat (snd (DMA_mem_run mem (map ins [0..<2]) (s0, d0))) div 2 ^ 32))
                     (real (unat (snd (DMA_mem_run mem (map ins [0..<2]) (s0, d0))) mod 2 ^ 32))"
proof -
  let ?b = "fst (snd (ins 0))"
  let ?st = "\<lambda>t. DMA_mem_run mem (map ins [0..<t]) (s0, d0)"
  have i0: "DMA_idle s0" using idle by (simp add: DMA_idle_def)
  have iss: "int j < snd (snd (ins j))" if "1 \<le> j" "j < 1" for j
    using that by simp
  have stp: "snd (snd (ins j)) \<le> int 1" if "1 \<le> j" "j < 1 + 3" for j
  proof -
    from that have "j \<in> {1, 2, 3}" by auto
    with short show ?thesis by auto
  qed
  have at: "DMA_at 1 ?b t (DMA_run (map ins [0..<t]) s0)" if "1 \<le> t" "t \<le> 1 + 3" for t
    using i0 start _ iss stp that by (rule DMA_transfer_trace) simp
  have f: "fst (?st t) = DMA_run (map ins [0..<t]) s0" for t
    by (simp add: fst_DMA_mem_run)
  have a1: "DMA_at 1 ?b 1 (fst (?st 1))" unfolding f by (rule at) simp_all
  have a2: "DMA_at 1 ?b 2 (fst (?st 2))" unfolding f by (rule at) simp_all
  have a3: "DMA_at 1 ?b 3 (fst (?st 3))" unfolding f by (rule at) simp_all
  have a4: "DMA_at 1 ?b 4 (fst (?st 4))" unfolding f by (rule at) simp_all
  have "snd (?st (Suc 1)) = Memory_read False mem (mem_addr (fst (?st 1)))"
    unfolding f by (simp only: snd_DMA_mem_run_Suc fst_conv)
  moreover have "mem_addr (fst (?st 1)) = ?b" using a1 by (simp add: DMA_at_def)
  ultimately have d2: "snd (?st 2) =
      (if unat ?b mod 2 ^ 32 < length mem then mem ! (unat ?b mod 2 ^ 32) else 0)"
    by (simp add: Memory_read_def Let_def numeral_2_eq_2)
  have P: "read_wait (fst (?st t)) = (t = 1) \<and> mem_addr (fst (?st t)) = ?b \<and>
           fft_valid (fst (?st t)) (snd (?st t)) = (t = 2) \<and>
           busy (fst (?st t)) = (t \<le> 3) \<and> active (fst (?st t)) = (t \<le> 3)"
    if "t \<in> {1, 2, 3, 4}" for t
  proof -
    from that consider "t = 1" | "t = 2" | "t = 3" | "t = 4" by auto
    then show ?thesis
    proof cases
      case 1 then show ?thesis using a1 by (simp add: DMA_at_def fft_valid_def DMA_comb_logic_def)
    next
      case 2 then show ?thesis using a2 by (simp add: DMA_at_def fft_valid_def DMA_comb_logic_def)
    next
      case 3 then show ?thesis using a3 by (simp add: DMA_at_def fft_valid_def DMA_comb_logic_def)
    next
      case 4 then show ?thesis using a4 by (simp add: DMA_at_def fft_valid_def DMA_comb_logic_def)
    qed
  qed
  have rr: "read_req (fst (?st 2))" using a2 by (simp add: DMA_at_def)
  have Q: "fft_data (fst (?st 2)) (snd (?st 2)) =
           Complex_t (real (unat (snd (?st 2)) div 2 ^ 32)) (real (unat (snd (?st 2)) mod 2 ^ 32))"
    using rr by (simp add: fft_data_def DMA_comb_logic_set_64)
  show ?thesis using P d2 Q by blast
qed

text \<open>Transfers of length 0 and \<open>- 3\<close> from address 1 after reset: one sample, the one
  stored at address 1.\<close>

theorem DMA_short_transfer_reads_once_witness:
  "fft_valid (fst (DMA_mem_run tb_mem (map (short_ins 0) [0..<2]) (DMA_reset, 0)))
             (snd (DMA_mem_run tb_mem (map (short_ins 0) [0..<2]) (DMA_reset, 0))) \<and>
   fft_data (fst (DMA_mem_run tb_mem (map (short_ins 0) [0..<2]) (DMA_reset, 0)))
            (snd (DMA_mem_run tb_mem (map (short_ins 0) [0..<2]) (DMA_reset, 0))) = Complex_t 6 2 \<and>
   \<not> fft_valid (fst (DMA_mem_run tb_mem (map (short_ins (- 3)) [0..<3]) (DMA_reset, 0)))
             (snd (DMA_mem_run tb_mem (map (short_ins (- 3)) [0..<3]) (DMA_reset, 0))) \<and>
   \<not> busy (fst (DMA_mem_run tb_mem (map (short_ins (- 3)) [0..<4]) (DMA_reset, 0)))"
proof -
  have h: "\<not> active (DMA_reset :: 12 dma_state)" "\<not> read_req (DMA_reset :: 12 dma_state)"
    "\<not> read_wait (DMA_reset :: 12 dma_state)"
    by (simp_all add: DMA_reset_def)
  have s0: "fst (short_ins 0 0)" "\<forall>j\<in>{1, 2, 3}. snd (snd (short_ins 0 j)) \<le> 1"
    by (simp_all add: short_ins_def)
  have s3: "fst (short_ins (- 3) 0)" "\<forall>j\<in>{1, 2, 3}. snd (snd (short_ins (- 3) j)) \<le> 1"
    by (simp_all add: short_ins_def)
  note z = DMA_short_transfer_reads_once [OF h s0, of tb_mem 0]
  note n = DMA_short_transfer_reads_once [OF h s3, of tb_mem 0]
  have m: "snd (DMA_mem_run tb_mem (map (short_ins 0) [0..<2]) (DMA_reset, 0)) = 0x0000000600000002"
    using z [THEN conjunct2, THEN conjunct1] by (simp add: short_ins_def tb_mem_def)
  have v: "fft_valid (fst (DMA_mem_run tb_mem (map (short_ins 0) [0..<2]) (DMA_reset, 0)))
             (snd (DMA_mem_run tb_mem (map (short_ins 0) [0..<2]) (DMA_reset, 0)))"
    using z [THEN conjunct1, THEN bspec, of 2] by simp
  have d: "fft_data (fst (DMA_mem_run tb_mem (map (short_ins 0) [0..<2]) (DMA_reset, 0)))
            (snd (DMA_mem_run tb_mem (map (short_ins 0) [0..<2]) (DMA_reset, 0))) = Complex_t 6 2"
    using z [THEN conjunct2, THEN conjunct2] unfolding m by simp
  have w: "\<not> fft_valid (fst (DMA_mem_run tb_mem (map (short_ins (- 3)) [0..<3]) (DMA_reset, 0)))
             (snd (DMA_mem_run tb_mem (map (short_ins (- 3)) [0..<3]) (DMA_reset, 0)))"
    using n [THEN conjunct1, THEN bspec, of 3] by simp
  have b: "\<not> busy (fst (DMA_mem_run tb_mem (map (short_ins (- 3)) [0..<4]) (DMA_reset, 0)))"
    using n [THEN conjunct1, THEN bspec, of 4] by simp
  show ?thesis using v d w b by simp
qed

section \<open>A start while a transfer or a stagger sequence is in progress\<close>

text \<open>
  C9. While the DMA is active, and while the stagger scheduler of InterleavedFFT is
  staggering, the value of \<^verbatim>\<open>start\<close> has no effect on the next state: the edge gives the
  state it gives with \<^verbatim>\<open>start\<close> low. Neither module has an error output.
\<close>

theorem start_ignored_while_busy:
  "(active s \<longrightarrow>
      DMA_seq_logic rst start base_addr num_samples s =
      DMA_seq_logic rst False base_addr num_samples s) \<and>
   (active_stagger g \<longrightarrow>
      IFFT_control_logic rst' start' g = IFFT_control_logic rst' False g)"
  by (simp add: DMA_seq_logic_def IFFT_control_logic_def Let_def)

text \<open>A DMA in the middle of a transfer goes on to the next address, and a scheduler at
  count 1 goes on to count 2, whether \<^verbatim>\<open>start\<close> is high or low.\<close>

theorem start_ignored_while_busy_witness:
  "active dma_mid \<and>
   DMA_seq_logic False True 9 8 dma_mid = DMA_seq_logic False False 9 8 dma_mid \<and>
   DMA_seq_logic False True 9 8 dma_mid =
     dma_mid\<lparr>mem_addr := 4, current_addr := 5, sample_counter := 4\<rparr> \<and>
   active_stagger stagger_mid \<and>
   IFFT_control_logic False True stagger_mid = IFFT_control_logic False False stagger_mid \<and>
   IFFT_control_logic False True stagger_mid =
     stagger_mid\<lparr>dma_starts := [False, True], stagger_counter := 2\<rparr>"
proof -
  have a: "active dma_mid" "active_stagger stagger_mid"
    by (simp_all add: dma_mid_def stagger_mid_def)
  have e: "DMA_seq_logic False True 9 8 dma_mid = DMA_seq_logic False False 9 8 dma_mid"
    "IFFT_control_logic False True stagger_mid = IFFT_control_logic False False stagger_mid"
    using start_ignored_while_busy [of dma_mid False True 9 8 stagger_mid False True] a
    by simp_all
  have v: "DMA_seq_logic False False 9 8 dma_mid =
             dma_mid\<lparr>mem_addr := 4, current_addr := 5, sample_counter := 4\<rparr>"
    by (simp add: dma_mid_def DMA_seq_logic_def Let_def)
  have w: "IFFT_control_logic False False stagger_mid =
             stagger_mid\<lparr>dma_starts := [False, True], stagger_counter := 2\<rparr>"
    by (simp add: stagger_mid_def IFFT_control_logic_def Let_def upt_rec int32_def)
  show ?thesis using a e v w by simp
qed

section \<open>The stage's two phases and its sync\<close>

lemma c_div_nonneg: "0 \<le> a \<Longrightarrow> 0 < b \<Longrightarrow> c_div a b = a div b"
  by (cases "a = 0") (simp_all add: c_div_def)

lemma c_mod_nonneg: "0 \<le> a \<Longrightarrow> 0 < b \<Longrightarrow> c_mod a b = a mod b"
  by (simp add: c_mod_def c_div_nonneg minus_mult_div_eq_mod)

lemma length_fill_zero: "length (fill_zero buf) = length buf"
  by (simp add: fill_zero_def)

lemma Stage_process_phases:
  fixes fp :: fp_arith and s :: stage and x :: complex_t and sync :: bool
  defines "c \<equiv> (if sync then init_offset s else cnt s)"
    and "bi \<equiv> (if sync then fill_zero (buf_in s) else buf_in s)"
    and "bo \<equiv> (if sync then fill_zero (buf_out s) else buf_out s)"
  defines "k \<equiv> c - delay_len s"
  defines "dr \<equiv> rnd fp (real_c (bi ! nat k) - real_c x)"
    and "di \<equiv> rnd fp (imag (bi ! nat k) - imag x)"
    and "angle \<equiv> rnd fp (rnd fp (rnd fp (- 2 * rnd fp 3.14159265358979323846)
                               * real_of_int k) / real_of_int (N_stage s))"
  assumes ok: "stage_ok s"
  shows "\<exists>s'. Stage_process fp False True sync x s = Inr s' \<and>
           (c < delay_len s \<longrightarrow>
              buf_in s' = bi[nat c := x] \<and> out_data s' = bo ! nat c \<and> buf_out s' = bo) \<and>
           (delay_len s \<le> c \<longrightarrow>
              out_data s' = Complex_t (rnd fp (real_c (bi ! nat k) + real_c x))
                                      (rnd fp (imag (bi ! nat k) + imag x)) \<and>
              buf_out s' = bo[nat k := Complex_t
                  (rnd fp (rnd fp (dr * fcos fp angle) - rnd fp (di * fsin fp angle)))
                  (rnd fp (rnd fp (dr * fsin fp angle) + rnd fp (di * fcos fp angle)))] \<and>
              buf_in s' = bi) \<and>
           cnt s' = (c + 1) mod N_stage s \<and>
           stage_ok s'"
proof -
  have c: "0 \<le> c" "c < N_stage s"
    using ok by (auto simp add: stage_ok_def c_def)
  have len: "length bi = nat (delay_len s)" "length bo = nat (delay_len s)"
    using ok by (auto simp add: stage_ok_def bi_def bo_def length_fill_zero)
  have n: "2 \<le> N_stage s" "N_stage s = 2 * delay_len s"
    using ok by (auto simp add: stage_ok_def)
  have m: "c_mod (c + 1) (N_stage s) = (c + 1) mod N_stage s"
    using c n by (intro c_mod_nonneg) auto
  have r: "0 \<le> (c + 1) mod N_stage s" "(c + 1) mod N_stage s < N_stage s"
    using n by auto
  show ?thesis
  proof (cases "c < delay_len s")
    case True
    then have "Stage_process fp False True sync x s =
        Inr (s\<lparr>buf_in := bi[nat c := x], buf_out := bo, out_data := bo ! nat c,
               cnt := (c + 1) mod N_stage s\<rparr>)"
      using c len n m
      by (simp add: Stage_process_def Let_def c_def [symmetric] bi_def [symmetric]
            bo_def [symmetric])
    then show ?thesis
      using True ok len r by (simp add: stage_ok_def)
  next
    case False
    then have k: "0 \<le> k" "k < delay_len s" using c n by (auto simp add: k_def)
    have n0: "N_stage s \<noteq> 0" using n by simp
    have tw: "get_twiddle fp k (N_stage s) = Inr (Complex_t (fcos fp angle) (fsin fp angle))"
      using n0 by (simp add: get_twiddle_def Let_def PI_def angle_def)
    have "Stage_process fp False True sync x s =
        Inr (s\<lparr>buf_in := bi,
               buf_out := bo[nat k := c_mul fp (c_sub fp (bi ! nat k) x)
                                        (Complex_t (fcos fp angle) (fsin fp angle))],
               out_data := c_add fp (bi ! nat k) x,
               cnt := (c + 1) mod N_stage s\<rparr>)"
      using False k len n0 m
      by (simp add: Stage_process_def Let_def c_def [symmetric] bi_def [symmetric]
            bo_def [symmetric] k_def [symmetric] tw)
    then show ?thesis
      using False ok len r
      by (simp add: stage_ok_def c_add_def c_sub_def c_mul_def dr_def di_def)
  qed
qed

lemma Stage_process_ok:
  assumes "stage_ok s"
  shows "\<exists>s'. Stage_process fp False en sy x s = Inr s' \<and> stage_ok s'"
proof (cases en)
  case True
  then have e: "en = True" by simp
  from Stage_process_phases [OF assms, of fp sy x]
  obtain s' where "Stage_process fp False True sy x s = Inr s'" "stage_ok s'"
    by (elim exE conjE)
  then show ?thesis unfolding e by blast
next
  case False
  then show ?thesis using assms by (simp add: Stage_process_def)
qed

lemma exact_twiddle_cis:
  "Complex (fcos exact_arith a) (fsin exact_arith a) = cis a"
  by (simp add: exact_arith_def complex_eq_iff)

text \<open>
  C2. A stage of even size \<open>N_stage \<ge> 2\<close> with \<open>delay_len = N_stage / 2\<close>, buffers of
  \<open>delay_len\<close> slots and counter and offset within the period takes every enabled edge
  without reset without a fault. With \<open>c\<close> the counter after sync (\<^verbatim>\<open>init_offset\<close> when
  \<^verbatim>\<open>sync\<close> is set, \<^verbatim>\<open>cnt\<close> otherwise) and \<open>bi\<close>, \<open>bo\<close> the buffers after sync (cleared when
  \<^verbatim>\<open>sync\<close> is set): if \<open>c < delay_len\<close> the input is stored at \<open>bi[c]\<close> and \<open>bo[c]\<close> is
  emitted, \<open>bo\<close> unchanged. Otherwise, with \<open>k = c - delay_len\<close>, the sum of \<open>bi[k]\<close> and the
  input (component by component, each sum rounded) is emitted at once, and the product of
  their difference \<open>(dr, di)\<close> with \<open>W = (cos angle, sin angle)\<close> is stored at \<open>bo[k]\<close>:
  real part \<open>dr * cos angle - di * sin angle\<close>, imaginary part
  \<open>dr * sin angle + di * cos angle\<close>, every operation rounded, where \<open>angle\<close> is
  \<open>- 2 * PI * k / N_stage\<close> evaluated from the left with the literal \<open>PI\<close> of the source;
  \<open>bi\<close> is unchanged. The counter becomes \<open>(c + 1) mod N_stage\<close>, and the stage is again
  of this kind. Without rounding, \<open>W\<close> is \<open>cis angle\<close>, that is \<open>exp (j * angle)\<close> with
  \<open>angle = - 2 * PI * k / N_stage\<close>.
\<close>

theorem Stage_two_phase:
  fixes fp :: fp_arith and s :: stage and x :: complex_t and sync :: bool
  defines "c \<equiv> (if sync then init_offset s else cnt s)"
    and "bi \<equiv> (if sync then fill_zero (buf_in s) else buf_in s)"
    and "bo \<equiv> (if sync then fill_zero (buf_out s) else buf_out s)"
  defines "k \<equiv> c - delay_len s"
  defines "dr \<equiv> rnd fp (real_c (bi ! nat k) - real_c x)"
    and "di \<equiv> rnd fp (imag (bi ! nat k) - imag x)"
    and "angle \<equiv> rnd fp (rnd fp (rnd fp (- 2 * rnd fp 3.14159265358979323846)
                               * real_of_int k) / real_of_int (N_stage s))"
  assumes ok: "stage_ok s"
  shows "(\<exists>s'. Stage_process fp False True sync x s = Inr s' \<and>
           (c < delay_len s \<longrightarrow>
              buf_in s' = bi[nat c := x] \<and> out_data s' = bo ! nat c \<and> buf_out s' = bo) \<and>
           (delay_len s \<le> c \<longrightarrow>
              out_data s' = Complex_t (rnd fp (real_c (bi ! nat k) + real_c x))
                                      (rnd fp (imag (bi ! nat k) + imag x)) \<and>
              buf_out s' = bo[nat k := Complex_t
                  (rnd fp (rnd fp (dr * fcos fp angle) - rnd fp (di * fsin fp angle)))
                  (rnd fp (rnd fp (dr * fsin fp angle) + rnd fp (di * fcos fp angle)))] \<and>
              buf_in s' = bi) \<and>
           cnt s' = (c + 1) mod N_stage s \<and>
           stage_ok s') \<and>
         (fp = exact_arith \<longrightarrow>
            angle = - 2 * 3.14159265358979323846 * real_of_int k / real_of_int (N_stage s) \<and>
            Complex (fcos fp angle) (fsin fp angle) = cis angle)"
proof -
  have a: "\<exists>s'. Stage_process fp False True sync x s = Inr s' \<and>
           (c < delay_len s \<longrightarrow>
              buf_in s' = bi[nat c := x] \<and> out_data s' = bo ! nat c \<and> buf_out s' = bo) \<and>
           (delay_len s \<le> c \<longrightarrow>
              out_data s' = Complex_t (rnd fp (real_c (bi ! nat k) + real_c x))
                                      (rnd fp (imag (bi ! nat k) + imag x)) \<and>
              buf_out s' = bo[nat k := Complex_t
                  (rnd fp (rnd fp (dr * fcos fp angle) - rnd fp (di * fsin fp angle)))
                  (rnd fp (rnd fp (dr * fsin fp angle) + rnd fp (di * fcos fp angle)))] \<and>
              buf_in s' = bi) \<and>
           cnt s' = (c + 1) mod N_stage s \<and>
           stage_ok s'"
    unfolding c_def bi_def bo_def k_def dr_def di_def angle_def
    using ok by (rule Stage_process_phases)
  have b: "angle = - 2 * 3.14159265358979323846 * real_of_int k / real_of_int (N_stage s) \<and>
           Complex (fcos fp angle) (fsin fp angle) = cis angle"
    if "fp = exact_arith"
    using that by (simp add: angle_def exact_twiddle_cis) (simp add: exact_arith_def)
  show ?thesis using a b by blast
qed

text \<open>The stage of size 4 with exact arithmetic: in its first phase; in its second phase
  with \<open>k = 0\<close>, where the angle is 0 and \<open>W = 1 + 0j\<close>; in its second phase with \<open>k = 1\<close>,
  where the angle is \<open>- 2 * PI / 4\<close> and \<open>W\<close> is \<open>cis\<close> of it; and with sync in its second
  phase, where the counter restarts at 0.\<close>

theorem Stage_two_phase_witness:
  "stage_ok stage_p1 \<and>
   (\<exists>s'. Stage_process exact_arith False True False (Complex_t 1 2) stage_p1 = Inr s' \<and>
         buf_in s' = [Complex_t 3 1, Complex_t 1 2] \<and> out_data s' = Complex_t 8 8 \<and>
         buf_out s' = [Complex_t 7 7, Complex_t 8 8] \<and> cnt s' = 2) \<and>
   stage_ok stage_p2 \<and>
   (\<exists>s'. Stage_process exact_arith False True False (Complex_t 1 2) stage_p2 = Inr s' \<and>
         buf_in s' = [Complex_t 3 1, Complex_t 5 3] \<and> out_data s' = Complex_t 4 3 \<and>
         buf_out s' = [Complex_t 2 (- 1), Complex_t 8 8] \<and> cnt s' = 3) \<and>
   stage_ok stage_p3 \<and>
   (\<exists>s'. Stage_process exact_arith False True False (Complex_t 1 2) stage_p3 = Inr s' \<and>
         buf_in s' = [Complex_t 3 1, Complex_t 5 3] \<and> out_data s' = Complex_t 6 5 \<and>
         buf_out s' = [Complex_t 7 7,
            Complex_t (4 * cos (- 2 * 3.14159265358979323846 / 4)
                         - 1 * sin (- 2 * 3.14159265358979323846 / 4))
                      (4 * sin (- 2 * 3.14159265358979323846 / 4)
                         + 1 * cos (- 2 * 3.14159265358979323846 / 4))] \<and>
         cnt s' = 0) \<and>
   Complex (cos (- 2 * 3.14159265358979323846 / 4)) (sin (- 2 * 3.14159265358979323846 / 4)) =
     cis (- 2 * 3.14159265358979323846 / 4) \<and>
   (\<exists>s'. Stage_process exact_arith False True True (Complex_t 1 2) stage_p2 = Inr s' \<and>
         buf_in s' = [Complex_t 1 2, Complex_t 0 0] \<and> out_data s' = Complex_t 0 0 \<and>
         buf_out s' = [Complex_t 0 0, Complex_t 0 0] \<and> cnt s' = 1)"
proof -
  have ok: "stage_ok stage_p1" "stage_ok stage_p2" "stage_ok stage_p3"
    by (simp_all add: stage_ok_def stage_p1_def stage_p2_def stage_p3_def)
  note t1 = Stage_two_phase [OF ok(1), of exact_arith False "Complex_t 1 2", THEN conjunct1]
  note t2 = Stage_two_phase [OF ok(2), of exact_arith False "Complex_t 1 2", THEN conjunct1]
  note t3 = Stage_two_phase [OF ok(3), of exact_arith False "Complex_t 1 2", THEN conjunct1]
  note t4 = Stage_two_phase [OF ok(2), of exact_arith True "Complex_t 1 2", THEN conjunct1]
  have a1: "\<exists>s'. Stage_process exact_arith False True False (Complex_t 1 2) stage_p1 = Inr s' \<and>
         buf_in s' = [Complex_t 3 1, Complex_t 1 2] \<and> out_data s' = Complex_t 8 8 \<and>
         buf_out s' = [Complex_t 7 7, Complex_t 8 8] \<and> cnt s' = 2"
    using t1 by (simp add: stage_p1_def exact_arith_def) blast
  have a2: "\<exists>s'. Stage_process exact_arith False True False (Complex_t 1 2) stage_p2 = Inr s' \<and>
         buf_in s' = [Complex_t 3 1, Complex_t 5 3] \<and> out_data s' = Complex_t 4 3 \<and>
         buf_out s' = [Complex_t 2 (- 1), Complex_t 8 8] \<and> cnt s' = 3"
    using t2 by (simp add: stage_p1_def stage_p2_def exact_arith_def) blast
  have a3: "\<exists>s'. Stage_process exact_arith False True False (Complex_t 1 2) stage_p3 = Inr s' \<and>
         buf_in s' = [Complex_t 3 1, Complex_t 5 3] \<and> out_data s' = Complex_t 6 5 \<and>
         buf_out s' = [Complex_t 7 7,
            Complex_t (4 * cos (- 2 * 3.14159265358979323846 / 4)
                         - 1 * sin (- 2 * 3.14159265358979323846 / 4))
                      (4 * sin (- 2 * 3.14159265358979323846 / 4)
                         + 1 * cos (- 2 * 3.14159265358979323846 / 4))] \<and>
         cnt s' = 0"
    using t3 by (simp add: stage_p1_def stage_p3_def exact_arith_def) blast
  have a4: "\<exists>s'. Stage_process exact_arith False True True (Complex_t 1 2) stage_p2 = Inr s' \<and>
         buf_in s' = [Complex_t 1 2, Complex_t 0 0] \<and> out_data s' = Complex_t 0 0 \<and>
         buf_out s' = [Complex_t 0 0, Complex_t 0 0] \<and> cnt s' = 1"
    using t4 by (simp add: stage_p1_def stage_p2_def exact_arith_def fill_zero_def) blast
  have a5: "Complex (cos (- 2 * 3.14159265358979323846 / 4))
                    (sin (- 2 * 3.14159265358979323846 / 4)) =
            cis (- 2 * 3.14159265358979323846 / 4)"
    using Stage_two_phase [OF ok(3), of exact_arith False "Complex_t 1 2", THEN conjunct2]
    by (simp add: stage_p1_def stage_p3_def exact_arith_def)
  show ?thesis using ok a1 a2 a3 a4 a5 by blast
qed

text \<open>
  C6. On an enabled edge without reset where \<^verbatim>\<open>sync\<close> is asserted, the stage does what it
  does without sync from the state whose counter is \<^verbatim>\<open>init_offset\<close> and whose two buffers
  are cleared to zero: the reset of the counter and the clearing come first, then the
  sample of this edge is processed. So the outcome does not depend on the counter, the
  output or the buffer contents before the edge: two stages of the same configuration
  and buffer lengths give the same outcome.
\<close>

theorem Stage_sync_clears:
  "Stage_process fp False True True x s =
     Stage_process fp False True False x
       (s\<lparr>cnt := init_offset s, buf_in := fill_zero (buf_in s),
          buf_out := fill_zero (buf_out s)\<rparr>) \<and>
   (N_stage s = N_stage s' \<and> delay_len s = delay_len s' \<and> init_offset s = init_offset s' \<and>
    length (buf_in s) = length (buf_in s') \<and> length (buf_out s) = length (buf_out s')
    \<longrightarrow> Stage_process fp False True True x s = Stage_process fp False True True x s')"
  by (simp add: Stage_process_def Let_def length_fill_zero fill_zero_def split: sum.splits)

text \<open>With sync, the stage with counter 2 and the one with counter 1 reach the same state,
  which holds the input of this edge and zeros.\<close>

theorem Stage_sync_clears_witness:
  "Stage_process exact_arith False True True (Complex_t 1 2) stage_p2 =
     Inr (stage_p2\<lparr>cnt := 1, out_data := Complex_t 0 0,
                    buf_in := [Complex_t 1 2, Complex_t 0 0],
                    buf_out := [Complex_t 0 0, Complex_t 0 0]\<rparr>) \<and>
   Stage_process exact_arith False True True (Complex_t 1 2) stage_p2 =
     Stage_process exact_arith False True True (Complex_t 1 2) stage_p1"
proof -
  note t = Stage_sync_clears [of exact_arith "Complex_t 1 2" stage_p2 stage_p1]
  have comp: "Stage_process exact_arith False True False (Complex_t 1 2)
          (stage_p2\<lparr>cnt := init_offset stage_p2, buf_in := fill_zero (buf_in stage_p2),
             buf_out := fill_zero (buf_out stage_p2)\<rparr>) =
        Inr (stage_p2\<lparr>cnt := 1, out_data := Complex_t 0 0,
                    buf_in := [Complex_t 1 2, Complex_t 0 0],
                    buf_out := [Complex_t 0 0, Complex_t 0 0]\<rparr>)"
    by (simp add: Stage_process_def Let_def stage_p1_def stage_p2_def fill_zero_def
          c_mod_def c_div_def)
  have cfg: "N_stage stage_p2 = N_stage stage_p1 \<and> delay_len stage_p2 = delay_len stage_p1 \<and>
    init_offset stage_p2 = init_offset stage_p1 \<and>
    length (buf_in stage_p2) = length (buf_in stage_p1) \<and>
    length (buf_out stage_p2) = length (buf_out stage_p1)"
    by (simp add: stage_p1_def stage_p2_def)
  have a: "Stage_process exact_arith False True True (Complex_t 1 2) stage_p2 =
     Inr (stage_p2\<lparr>cnt := 1, out_data := Complex_t 0 0,
                    buf_in := [Complex_t 1 2, Complex_t 0 0],
                    buf_out := [Complex_t 0 0, Complex_t 0 0]\<rparr>)"
    using t [THEN conjunct1] comp by (rule trans)
  have b: "Stage_process exact_arith False True True (Complex_t 1 2) stage_p2 =
     Stage_process exact_arith False True True (Complex_t 1 2) stage_p1"
    using t [THEN conjunct2] cfg by (rule mp)
  show ?thesis using a b by (rule conjI)
qed

section \<open>The FFT's constructor\<close>

lemma ilog2_power: "ilog2 (2 ^ k) = k"
proof (induction k)
  case 0
  then show ?case by (simp add: ilog2.simps)
next
  case (Suc k)
  have "\<not> (2::nat) ^ Suc k < 2" by simp
  then have "ilog2 (2 ^ Suc k) = Suc (ilog2 (2 ^ Suc k div 2))"
    by (subst ilog2.simps) simp
  with Suc show ?case by simp
qed

lemma ilog2_le: "1 \<le> n \<Longrightarrow> 2 ^ ilog2 n \<le> n"
proof (induction n rule: ilog2.induct)
  case (1 n)
  show ?case
  proof (cases "n < 2")
    case True
    with "1.prems" show ?thesis by (simp add: ilog2.simps)
  next
    case False
    then have "2 ^ ilog2 (n div 2) \<le> n div 2" using "1.IH" by simp
    then have "2 * 2 ^ ilog2 (n div 2) \<le> 2 * (n div 2)" by simp
    also have "\<dots> \<le> n" by simp
    finally show ?thesis using False by (subst ilog2.simps) simp
  qed
qed

lemma div_pow_Suc: "(n::int) div 2 ^ (i + 1) = n div 2 ^ i div 2"
proof -
  have "n div 2 ^ (i + 1) = n div (2 ^ i * 2)" by (simp add: mult.commute)
  also have "\<dots> = n div 2 ^ i div 2" by (rule zdiv_zmult2_eq) simp
  finally show ?thesis .
qed

lemma Stage_new_built:
  assumes "2 \<le> n" "0 \<le> off" "off < n"
  shows "\<exists>s. Stage_new n j off = Inr s \<and> stage_built s \<and> N_stage s = n"
proof -
  have "c_div n 2 = n div 2" using assms by (simp add: c_div_nonneg)
  moreover have "0 \<le> n div 2" using assms by simp
  ultimately show ?thesis
    using assms by (simp add: Stage_new_def Let_def stage_built_def)
qed

lemma FFT_offset_range:
  assumes "0 < cN" "0 \<le> lat0"
  shows "0 \<le> c_mod (cN - c_mod lat0 cN) cN \<and> c_mod (cN - c_mod lat0 cN) cN < cN"
proof -
  have a: "c_mod lat0 cN = lat0 mod cN" using assms by (simp add: c_mod_nonneg)
  have "0 \<le> cN - lat0 mod cN" using assms by (simp add: less_imp_le)
  then have "c_mod (cN - lat0 mod cN) cN = (cN - lat0 mod cN) mod cN"
    using assms by (simp add: c_mod_nonneg)
  then show ?thesis using a assms by simp
qed

lemma FFT_stage_loop_result:
  assumes "2 ^ K \<le> n" "0 \<le> lat0" "i \<le> K"
  shows "\<exists>new. FFT_stage_loop n K i lat0 sts =
           Inr (sts @ new, lat0 + (\<Sum>j = i..<K. n div 2 ^ (j + 1) + 1)) \<and>
           map N_stage new = map (\<lambda>j. n div 2 ^ j) [i..<K] \<and>
           list_all stage_built new"
  using assms
proof (induction "K - i" arbitrary: i lat0 sts)
  case 0
  then have "i = K" by simp
  then show ?case by (subst FFT_stage_loop.simps) simp
next
  case (Suc d)
  then have iK: "i < K" by simp
  let ?cN = "n div 2 ^ i"
  let ?off = "c_mod (?cN - c_mod lat0 ?cN) ?cN"
  have "(2::int) ^ K = 2 ^ i * 2 ^ (K - i)" using iK by (simp flip: power_add)
  then have "(2::int) ^ i * 2 ^ (K - i) \<le> n" using Suc.prems by simp
  then have "(2::int) ^ (K - i) \<le> ?cN"
    by (metis nonzero_mult_div_cancel_left power_not_zero zdiv_mono1
        zero_less_numeral zero_less_power zero_neq_numeral)
  moreover have "(2::int) ^ 1 \<le> 2 ^ (K - i)" using iK by (intro power_increasing) auto
  ultimately have cN2: "2 \<le> ?cN" by simp
  then have cN0: "?cN \<noteq> 0" "0 < ?cN" by auto
  have off: "0 \<le> ?off" "?off < ?cN"
    using FFT_offset_range [OF cN0(2) Suc.prems(2)] by auto
  obtain st where st: "Stage_new ?cN (int i) ?off = Inr st" "stage_built st" "N_stage st = ?cN"
    using Stage_new_built [OF cN2 off] by blast
  have lat: "c_div ?cN 2 = n div 2 ^ (i + 1)"
    using cN2 by (simp only: div_pow_Suc) (simp add: c_div_nonneg)
  have tlpos: "0 \<le> lat0 + (n div 2 ^ (i + 1) + 1)"
  proof -
    have "0 \<le> ?cN div 2" using cN2 by simp
    then show ?thesis using Suc.prems(2) by (simp only: div_pow_Suc)
  qed
  have d: "d = K - Suc i" using Suc.hyps by simp
  obtain new where new:
    "FFT_stage_loop n K (Suc i) (lat0 + (n div 2 ^ (i + 1) + 1)) (sts @ [st]) =
       Inr ((sts @ [st]) @ new,
            lat0 + (n div 2 ^ (i + 1) + 1) + (\<Sum>j = Suc i..<K. n div 2 ^ (j + 1) + 1))"
    "map N_stage new = map (\<lambda>j. n div 2 ^ j) [Suc i..<K]"
    "list_all stage_built new"
  proof -
    have "Suc i \<le> K" using iK by simp
    from Suc.hyps(1) [OF d Suc.prems(1) tlpos this, of "sts @ [st]"] that
    show ?thesis by blast
  qed
  have step: "FFT_stage_loop n K i lat0 sts =
      FFT_stage_loop n K (Suc i) (lat0 + (n div 2 ^ (i + 1) + 1)) (sts @ [st])"
    using iK cN0 st(1) lat by (subst FFT_stage_loop.simps) (simp add: Let_def)
  have sum: "(\<Sum>j = i..<K. n div 2 ^ (j + 1) + 1) =
      (n div 2 ^ (i + 1) + 1) + (\<Sum>j = Suc i..<K. n div 2 ^ (j + 1) + 1)"
    using iK by (simp add: sum.atLeast_Suc_lessThan)
  have upt: "[i..<K] = i # [Suc i..<K]" using iK by (simp add: upt_rec)
  show ?case
    apply (rule exI [of _ "st # new"])
    using step new st sum upt by simp
qed


lemma FFT_new_result:
  assumes "1 \<le> n"
  shows "\<exists>f. FFT_new n = Inr f \<and> N_fft f = n \<and> num_stages f = int (ilog2 (nat n)) \<and>
           latency_cycles f = (\<Sum>j = 0..<ilog2 (nat n). n div 2 ^ (j + 1) + 1) \<and>
           map N_stage (stages f) = map (\<lambda>j. n div 2 ^ j) [0..<ilog2 (nat n)] \<and>
           list_all stage_built (stages f) \<and>
           valid_pipe f = replicate (nat (latency_cycles f)) False"
proof -
  let ?K = "ilog2 (nat n)"
  have "2 ^ ?K \<le> nat n" using assms by (intro ilog2_le) simp
  then have "int (2 ^ ?K) \<le> int (nat n)" by (simp only: of_nat_le_iff)
  then have le: "(2::int) ^ ?K \<le> n" using assms by simp
  obtain new where new:
    "FFT_stage_loop n ?K 0 0 [] = Inr ([] @ new, 0 + (\<Sum>j = 0..<?K. n div 2 ^ (j + 1) + 1))"
    "map N_stage new = map (\<lambda>j. n div 2 ^ j) [0..<?K]" "list_all stage_built new"
    using FFT_stage_loop_result [OF le, of 0 0 "[]"] by auto
  show ?thesis
    using assms new by (simp add: FFT_new_def Let_def)
qed

lemma stage_built_even_ok:
  assumes "stage_built s" "even (N_stage s)"
  shows "stage_ok s"
  using assms by (auto simp add: stage_built_def stage_ok_def)

lemma pow2_stage_sizes_even:
  assumes "j < k"
  shows "even ((2::int) ^ k div 2 ^ j)"
proof -
  have "(2::int) ^ k div 2 ^ j = 2 ^ (k - j)"
    using assms by (simp add: power_diff)
  moreover have "even ((2::int) ^ (k - j))" using assms by simp
  ultimately show ?thesis by simp
qed

lemma FFT_new_4:
  "FFT_new 4 = Inr \<lparr>N_fft = 4, num_stages = 2, latency_cycles = 5,
       stages = [\<lparr>N_stage = 4, delay_len = 2, init_offset = 0, cnt = 0,
                  out_data = Complex_t 0 0,
                  buf_in = replicate 2 (Complex_t 0 0),
                  buf_out = replicate 2 (Complex_t 0 0)\<rparr>,
                 \<lparr>N_stage = 2, delay_len = 1, init_offset = 1, cnt = 0,
                  out_data = Complex_t 0 0,
                  buf_in = [Complex_t 0 0], buf_out = [Complex_t 0 0]\<rparr>],
       samples_in_cnt = 0, flushing = False,
       valid_pipe = replicate 5 False,
       out_cnt_reg = 0, internal_cnt = 0\<rparr>"
  by (simp add: FFT_new_def ilog2.simps FFT_stage_loop.simps Stage_new_def c_mod_def c_div_def
        Let_def)

text \<open>
  C8, as the specification states it, fails: the constructors check nothing. An FFT of
  size 6 is built with two stages of sizes 6 and 3 and latency 6, an FFT of size 1 with no
  stage and latency 0, and stages of sizes 3, 1 and 0 are built with buffers of 1, 0 and 0
  slots.
\<close>

theorem constructors_do_not_reject:
  "FFT_new 6 = Inr \<lparr>N_fft = 6, num_stages = 2, latency_cycles = 6,
       stages = [\<lparr>N_stage = 6, delay_len = 3, init_offset = 0, cnt = 0,
                  out_data = Complex_t 0 0,
                  buf_in = replicate 3 (Complex_t 0 0),
                  buf_out = replicate 3 (Complex_t 0 0)\<rparr>,
                 \<lparr>N_stage = 3, delay_len = 1, init_offset = 2, cnt = 0,
                  out_data = Complex_t 0 0,
                  buf_in = [Complex_t 0 0], buf_out = [Complex_t 0 0]\<rparr>],
       samples_in_cnt = 0, flushing = False,
       valid_pipe = replicate 6 False,
       out_cnt_reg = 0, internal_cnt = 0\<rparr> \<and>
   FFT_new 1 = Inr \<lparr>N_fft = 1, num_stages = 0, latency_cycles = 0, stages = [],
       samples_in_cnt = 0, flushing = False, valid_pipe = [],
       out_cnt_reg = 0, internal_cnt = 0\<rparr> \<and>
   Stage_new 3 1 2 = Inr \<lparr>N_stage = 3, delay_len = 1, init_offset = 2, cnt = 0,
       out_data = Complex_t 0 0, buf_in = [Complex_t 0 0], buf_out = [Complex_t 0 0]\<rparr> \<and>
   Stage_new 1 0 0 = Inr \<lparr>N_stage = 1, delay_len = 0, init_offset = 0, cnt = 0,
       out_data = Complex_t 0 0, buf_in = [], buf_out = []\<rparr> \<and>
   Stage_new 0 0 0 = Inr \<lparr>N_stage = 0, delay_len = 0, init_offset = 0, cnt = 0,
       out_data = Complex_t 0 0, buf_in = [], buf_out = []\<rparr>"
  by (simp add: FFT_new_def ilog2.simps FFT_stage_loop.simps Stage_new_def c_mod_def c_div_def
        Let_def)

text \<open>
  C8, amended. The constructors do not validate the size. For every \<open>N \<ge> 1\<close> the
  constructor of the FFT returns a pipeline with \<open>\<lfloor>log2 N\<rfloor>\<close> stages of sizes \<open>N div 2^i\<close>
  and latency the sum of \<open>N div 2^(i+1) + 1\<close> over these stages, and for every \<open>n \<ge> 0\<close>
  the constructor of the stage returns a stage of size \<open>n\<close> with buffers of \<open>n div 2\<close>
  slots. A power of two from 2 on is a precondition left to the caller.
\<close>

theorem constructors_accept_any_size:
  "(1 \<le> n \<longrightarrow>
      (\<exists>f. FFT_new n = Inr f \<and> N_fft f = n \<and> num_stages f = int (ilog2 (nat n)) \<and>
           map N_stage (stages f) = map (\<lambda>i. n div 2 ^ i) [0..<ilog2 (nat n)] \<and>
           latency_cycles f = (\<Sum>i = 0..<ilog2 (nat n). n div 2 ^ (i + 1) + 1))) \<and>
   (0 \<le> m \<longrightarrow>
      (\<exists>s. Stage_new m j off = Inr s \<and> N_stage s = m \<and> delay_len s = m div 2 \<and>
           init_offset s = off \<and>
           length (buf_in s) = nat (m div 2) \<and> length (buf_out s) = nat (m div 2)))"
proof -
  have a: "\<exists>f. FFT_new n = Inr f \<and> N_fft f = n \<and> num_stages f = int (ilog2 (nat n)) \<and>
           map N_stage (stages f) = map (\<lambda>i. n div 2 ^ i) [0..<ilog2 (nat n)] \<and>
           latency_cycles f = (\<Sum>i = 0..<ilog2 (nat n). n div 2 ^ (i + 1) + 1)"
    if "1 \<le> n"
    using FFT_new_result [OF that] by blast
  have b: "\<exists>s. Stage_new m j off = Inr s \<and> N_stage s = m \<and> delay_len s = m div 2 \<and>
           init_offset s = off \<and>
           length (buf_in s) = nat (m div 2) \<and> length (buf_out s) = nat (m div 2)"
    if "0 \<le> m"
  proof -
    have "c_div m 2 = m div 2" using that by (simp add: c_div_nonneg)
    moreover have "0 \<le> m div 2" using that by simp
    ultimately show ?thesis by (simp add: Stage_new_def Let_def)
  qed
  show ?thesis using a b by blast
qed

text \<open>The sizes 6 for the FFT and 3 for the stage.\<close>

theorem constructors_accept_any_size_witness:
  "(\<exists>f. FFT_new 6 = Inr f \<and> N_fft f = 6 \<and> num_stages f = 2 \<and>
        map N_stage (stages f) = [6, 3] \<and> latency_cycles f = 6) \<and>
   (\<exists>s. Stage_new 3 1 2 = Inr s \<and> N_stage s = 3 \<and> delay_len s = 1 \<and> init_offset s = 2 \<and>
        length (buf_in s) = 1 \<and> length (buf_out s) = 1)"
proof -
  have l: "ilog2 (nat 6) = 2" by (simp add: ilog2.simps)
  have u: "[0..<2] = [0, 1]" by (simp add: upt_rec)
  have s: "(\<Sum>i = 0..<2. (6::int) div 2 ^ (i + 1) + 1) = 6" by (simp add: numeral_2_eq_2)
  have h: "(1::int) \<le> 6" "(0::int) \<le> 3" by simp_all
  from constructors_accept_any_size [of 6 3 1 2] h
  have "(\<exists>f. FFT_new 6 = Inr f \<and> N_fft f = 6 \<and> num_stages f = int (ilog2 (nat 6)) \<and>
           map N_stage (stages f) = map (\<lambda>i. 6 div 2 ^ i) [0..<ilog2 (nat 6)] \<and>
           latency_cycles f = (\<Sum>i = 0..<ilog2 (nat 6). 6 div 2 ^ (i + 1) + 1))"
    and "(\<exists>s. Stage_new 3 1 2 = Inr s \<and> N_stage s = 3 \<and> delay_len s = 3 div 2 \<and>
           init_offset s = 2 \<and>
           length (buf_in s) = nat (3 div 2) \<and> length (buf_out s) = nat (3 div 2))"
    by blast+
  then show ?thesis unfolding l u s by simp
qed

section \<open>The FFT's control and latency\<close>

lemma int32_add_left: "int32 (int32 x + y) = int32 (x + y)"
proof -
  have "int32 x + y + 2 ^ 31 = (x + 2 ^ 31) mod 2 ^ 32 + y" by (simp add: int32_def)
  then have "(int32 x + y + 2 ^ 31) mod 2 ^ 32 = ((x + 2 ^ 31) mod 2 ^ 32 + y) mod 2 ^ 32"
    by (rule arg_cong)
  also have "\<dots> = (x + 2 ^ 31 + y) mod 2 ^ 32" by (rule mod_add_left_eq)
  also have "x + 2 ^ 31 + y = x + y + 2 ^ 31" by linarith
  finally show ?thesis by (simp add: int32_def)
qed

lemma int32_idem: "int32 (int32 x) = int32 x"
  using int32_add_left [of x 0] by simp

lemma int32_id: "- (2 ^ 31) \<le> x \<Longrightarrow> x < 2 ^ 31 \<Longrightarrow> int32 x = x"
  by (simp add: int32_def)

lemma any_valid_in_pipe_iff: "any_valid_in_pipe vp \<longleftrightarrow> True \<in> set vp"
  by (induction vp) auto

lemma shift_valid_pipe_eq:
  "vp \<noteq> [] \<Longrightarrow> shift_valid_pipe v vp = v # butlast vp"
  by (auto simp add: shift_valid_pipe_def intro!: nth_equalityI simp: nth_butlast)

lemma butlast_replicate_Suc: "butlast (replicate (Suc m) x) = replicate m x"
proof -
  have "replicate (Suc m) x = replicate m x @ [x]" by (simp add: replicate_append_same)
  then show ?thesis by (simp only: butlast_snoc)
qed

lemma butlast_in_flight:
  "butlast (pre @ True # replicate (Suc m) False) = pre @ True # replicate m False"
proof -
  have "pre @ True # replicate (Suc m) False = (pre @ True # replicate m False) @ [False]"
    by (simp add: replicate_append_same)
  then show ?thesis by (simp only: butlast_snoc)
qed

lemma last_in_flight: "last (xs @ True # replicate d False) = (d = 0)"
proof (cases d)
  case 0
  then show ?thesis by simp
next
  case (Suc n)
  have "replicate (Suc n) False = replicate n False @ [False]"
    by (simp add: replicate_append_same)
  then have "xs @ True # replicate (Suc n) False = (xs @ True # replicate n False) @ [False]"
    by simp
  then have "last (xs @ True # replicate (Suc n) False) = False"
    by (simp only: last_snoc)
  then show ?thesis using Suc by simp
qed

lemma out_valid_in_flight:
  assumes "valid_pipe g = xs @ True # replicate d False"
  shows "out_valid (FFT_comb_logic False b g) = (d = 0)"
proof -
  have "valid_pipe g \<noteq> []" using assms by simp
  then have "valid_pipe g ! (length (valid_pipe g) - 1) = last (valid_pipe g)"
    by (simp add: last_conv_nth)
  then show ?thesis
    using assms by (simp add: FFT_comb_logic_def Let_def last_in_flight del: last_appendR last_append)
qed

lemma stages_clock_ok:
  assumes "list_all stage_ok ss"
  shows "\<exists>ss'. stages_clock fp False en sy x ss = Inr ss' \<and> list_all stage_ok ss'"
  using assms
proof (induction ss arbitrary: x)
  case Nil
  then show ?case by simp
next
  case (Cons s ss)
  then obtain s' where s': "Stage_process fp False en sy x s = Inr s'" "stage_ok s'"
    using Stage_process_ok [of s fp en sy x] by auto
  obtain ss' where ss': "stages_clock fp False en sy (out_data s) ss = Inr ss'" "list_all stage_ok ss'"
    using Cons.IH [of "out_data s"] Cons.prems by auto
  show ?case using s' ss' by simp
qed

lemma stages_clock_disabled: "stages_clock fp False False sy x ss = Inr ss"
  by (induction ss arbitrary: x) (simp_all add: Stage_process_def)

lemma FFT_clock_idle:
  assumes "True \<notin> set (valid_pipe g)"
  shows "FFT_clock fp False False x g = Inr g"
  using assms
  by (simp add: FFT_clock_def internal_enable_def FFT_control_logic_def Let_def
        any_valid_in_pipe_iff stages_clock_disabled FFT_seq_logic_def)

lemma FFT_clock_enabled:
  assumes "list_all stage_ok (stages g)" "v \<or> True \<in> set (valid_pipe g)" "valid_pipe g \<noteq> []"
  shows "\<exists>g'. FFT_clock fp False v x g = Inr g' \<and> list_all stage_ok (stages g') \<and>
           valid_pipe g' = v # butlast (valid_pipe g) \<and>
           internal_cnt g' = int32 (internal_cnt g + 1)"
proof -
  have en: "internal_enable v g"
    using assms(2) by (simp add: internal_enable_def FFT_control_logic_def Let_def
        any_valid_in_pipe_iff)
  obtain ss' where ss': "stages_clock fp False True (stage_sync v g) x (stages g) = Inr ss'"
    "list_all stage_ok ss'"
    using stages_clock_ok [OF assms(1)] by blast
  show ?thesis
    using en ss' assms(3)
    by (simp add: FFT_clock_def Let_def FFT_seq_logic_def shift_valid_pipe_eq)
qed

lemma FFT_run_Cons:
  "FFT_run fp (i # ins) g =
     (case FFT_clock fp False (fst i) (snd i) g of Inl e \<Rightarrow> Inl e | Inr g' \<Rightarrow> FFT_run fp ins g')"
  by (cases i) simp

lemma FFT_run_in_flight:
  assumes "list_all stage_ok (stages g)" "valid_pipe g = pre @ True # replicate m False"
    "length ins \<le> m" "int32 (internal_cnt g) = internal_cnt g"
  shows "\<exists>g'. FFT_run fp ins g = Inr g' \<and> list_all stage_ok (stages g') \<and>
           valid_pipe g' = rev (map fst ins) @ pre @ True # replicate (m - length ins) False \<and>
           internal_cnt g' = int32 (internal_cnt g + int (length ins))"
  using assms
proof (induction ins arbitrary: g pre m)
  case Nil
  then show ?case by simp
next
  case (Cons i ins)
  then obtain m' where m': "m = Suc m'" by (cases m) auto
  have "True \<in> set (valid_pipe g)" "valid_pipe g \<noteq> []" using Cons.prems(2) by auto
  then obtain g1 where g1: "FFT_clock fp False (fst i) (snd i) g = Inr g1"
    "list_all stage_ok (stages g1)" "valid_pipe g1 = fst i # butlast (valid_pipe g)"
    "internal_cnt g1 = int32 (internal_cnt g + 1)"
    using FFT_clock_enabled [OF Cons.prems(1), where v = "fst i" and x = "snd i" and fp = fp]
    by blast
  have "butlast (valid_pipe g) = pre @ True # replicate m' False"
    unfolding Cons.prems(2) m' by (rule butlast_in_flight)
  then have vp1: "valid_pipe g1 = (fst i # pre) @ True # replicate m' False"
    using g1(3) by simp
  have "length ins \<le> m'" using Cons.prems(3) m' by simp
  moreover have "int32 (internal_cnt g1) = internal_cnt g1"
    unfolding g1(4) by (rule int32_idem)
  ultimately have "\<exists>g'. FFT_run fp ins g1 = Inr g' \<and> list_all stage_ok (stages g') \<and>
      valid_pipe g' =
        rev (map fst ins) @ (fst i # pre) @ True # replicate (m' - length ins) False \<and>
      internal_cnt g' = int32 (internal_cnt g1 + int (length ins))"
    using g1(2) vp1 by (intro Cons.IH)
  then
  obtain g' where g': "FFT_run fp ins g1 = Inr g'" "list_all stage_ok (stages g')"
    "valid_pipe g' = rev (map fst ins) @ (fst i # pre) @ True # replicate (m' - length ins) False"
    "internal_cnt g' = int32 (internal_cnt g1 + int (length ins))"
    by blast
  from g'(4) have "internal_cnt g' = int32 (int32 (internal_cnt g + 1) + int (length ins))"
    unfolding g1(4) .
  also have "\<dots> = int32 (internal_cnt g + 1 + int (length ins))"
    by (rule int32_add_left)
  also have "internal_cnt g + 1 + int (length ins) = internal_cnt g + int (length (i # ins))"
    by simp
  finally have cntg: "internal_cnt g' = int32 (internal_cnt g + int (length (i # ins)))" .
  show ?case
    using g1(1,2,3) g'(1,2,3) cntg m' by (simp add: FFT_run_Cons del: FFT_run.simps(2))
qed

lemma FFT_first_output:
  assumes ok: "list_all stage_ok (stages g)"
    and empty: "valid_pipe g = replicate L False" and L: "1 \<le> L"
    and ins: "ins \<noteq> []" "fst (hd ins)" "length ins \<le> L"
  shows "\<exists>g'. FFT_run fp ins g = Inr g' \<and>
           out_valid (FFT_comb_logic False b g') = (length ins = L) \<and>
           internal_cnt g' = int32 (internal_cnt g + int (length ins))"
proof -
  obtain i rest where i: "ins = i # rest" using ins(1) by (cases ins) auto
  then have v: "fst i" using ins(2) by simp
  obtain L' where L': "L = Suc L'" using L by (cases L) auto
  have ne: "valid_pipe g \<noteq> []" using empty L' by simp
  obtain g1 where g1: "FFT_clock fp False (fst i) (snd i) g = Inr g1"
    "list_all stage_ok (stages g1)" "valid_pipe g1 = fst i # butlast (valid_pipe g)"
    "internal_cnt g1 = int32 (internal_cnt g + 1)"
    using FFT_clock_enabled [OF ok _ ne, where v = "fst i" and x = "snd i" and fp = fp] v
    by blast
  have "butlast (valid_pipe g) = replicate L' False"
    unfolding empty L' by (rule butlast_replicate_Suc)
  then have vp1: "valid_pipe g1 = [] @ True # replicate L' False" using g1(3) v by simp
  have len: "length rest \<le> L'" using ins(3) i L' by simp
  have inr: "int32 (internal_cnt g1) = internal_cnt g1"
    unfolding g1(4) by (rule int32_idem)
  from FFT_run_in_flight [OF g1(2) vp1 len inr]
  obtain g' where g': "FFT_run fp rest g1 = Inr g'"
    "valid_pipe g' = rev (map fst rest) @ [] @ True # replicate (L' - length rest) False"
    "internal_cnt g' = int32 (internal_cnt g1 + int (length rest))"
    by blast
  from g'(3) have "internal_cnt g' = int32 (int32 (internal_cnt g + 1) + int (length rest))"
    unfolding g1(4) .
  also have "\<dots> = int32 (internal_cnt g + 1 + int (length rest))"
    by (rule int32_add_left)
  also have "internal_cnt g + 1 + int (length rest) = internal_cnt g + int (length ins)"
    using i by simp
  finally have cntg: "internal_cnt g' = int32 (internal_cnt g + int (length ins))" .
  have "valid_pipe g' = rev (map fst rest) @ True # replicate (L' - length rest) False"
    using g'(2) by simp
  then have "out_valid (FFT_comb_logic False b g') = (L' - length rest = 0)"
    by (rule out_valid_in_flight)
  then have "out_valid (FFT_comb_logic False b g') = (length ins = L)"
    using len i L' by auto
  then show ?thesis
    using g1(1) g'(1) cntg i by (simp add: FFT_run_Cons del: FFT_run.simps(2))
qed

text \<open>
  C7. \<^verbatim>\<open>stage_sync\<close> is asserted exactly when \<^verbatim>\<open>samples_in_cnt\<close> is 0, \<^verbatim>\<open>in_valid\<close> is true
  and no entry of the validity shift register is true.
\<close>

theorem stage_sync_iff:
  "stage_sync in_valid f \<longleftrightarrow>
     samples_in_cnt f = 0 \<and> in_valid \<and> (\<forall>i<length (valid_pipe f). \<not> valid_pipe f ! i)"
proof -
  have "True \<in> set (valid_pipe f) \<longleftrightarrow> (\<exists>i<length (valid_pipe f). valid_pipe f ! i)"
    by (auto simp add: in_set_conv_nth)
  then show ?thesis
    by (auto simp add: stage_sync_def FFT_control_logic_def Let_def any_valid_in_pipe_iff)
qed

text \<open>The FFT of size 4 as constructed: sync with a valid input, none without; none with
  a sample in flight or in the middle of a block.\<close>

theorem stage_sync_iff_witness:
  "\<exists>f. FFT_new 4 = Inr f \<and> stage_sync True f \<and> \<not> stage_sync False f \<and>
       \<not> stage_sync True (f\<lparr>valid_pipe := [False, True, False, False, False]\<rparr>) \<and>
       \<not> stage_sync True (f\<lparr>samples_in_cnt := 1\<rparr>)"
proof -
  obtain f where f: "FFT_new 4 = Inr f" "samples_in_cnt f = 0"
    "valid_pipe f = replicate 5 False"
    using FFT_new_4 by simp
  have a: "\<forall>i<length (valid_pipe f). \<not> valid_pipe f ! i"
    unfolding f(3) by simp
  have b: "\<not> (\<forall>i<length [False, True, False, False, False]. \<not> [False, True, False, False, False] ! i)"
    by (simp add: nth_Cons' All_less_Suc numeral_eq_Suc)
  show ?thesis
    using f a b stage_sync_iff [of True f] stage_sync_iff [of False f]
      stage_sync_iff [of True "f\<lparr>valid_pipe := [False, True, False, False, False]\<rparr>"]
      stage_sync_iff [of True "f\<lparr>samples_in_cnt := 1\<rparr>"]
    by auto
qed

text \<open>
  C1. For \<open>N = 2^k\<close> with \<open>k \<ge> 1\<close> the constructor builds \<open>k\<close> stages and sets
  \<^verbatim>\<open>latency_cycles\<close> to the sum over \<open>i = 0 .. k - 1\<close> of \<open>N div 2^(i+1) + 1\<close>, the length of
  the validity shift register. From any state of this FFT with an empty validity register
  (as constructed, after reset, or drained), when the first input is valid, the clock
  edges run without a fault, each of them is enabled (\<^verbatim>\<open>internal_cnt\<close>, which wraps
  around as an \<^verbatim>\<open>int\<close>, counts them), and
  \<^verbatim>\<open>out_valid\<close> is false after fewer than \<^verbatim>\<open>latency_cycles\<close> edges and true after exactly
  \<^verbatim>\<open>latency_cycles\<close> edges, whatever the later inputs are. An edge with an invalid input
  and an empty register changes nothing, so the cycles before the first valid input do
  not count.
\<close>

theorem FFT_latency_law:
  assumes "1 \<le> k"
  shows "\<exists>f. FFT_new (2 ^ k) = Inr f \<and>
           num_stages f = int k \<and>
           latency_cycles f = (\<Sum>i = 0..<k. 2 ^ k div 2 ^ (i + 1) + 1) \<and>
           valid_pipe f = replicate (nat (latency_cycles f)) False \<and>
           list_all stage_ok (stages f) \<and>
           (\<forall>fp g ins b.
              list_all stage_ok (stages g) \<and>
              valid_pipe g = replicate (nat (latency_cycles f)) False \<and>
              ins \<noteq> [] \<and> fst (hd ins) \<and> length ins \<le> nat (latency_cycles f) \<longrightarrow>
              (\<exists>g'. FFT_run fp ins g = Inr g' \<and>
                    out_valid (FFT_comb_logic False b g') = (length ins = nat (latency_cycles f)) \<and>
                    internal_cnt g' = int32 (internal_cnt g + int (length ins)))) \<and>
           (\<forall>fp g x. True \<notin> set (valid_pipe g) \<longrightarrow> FFT_clock fp False False x g = Inr g)"
proof -
  have n1: "1 \<le> (2::int) ^ k" by simp
  have lg: "ilog2 (nat ((2::int) ^ k)) = k"
    by (simp add: nat_power_eq ilog2_power)
  obtain f where f: "FFT_new (2 ^ k) = Inr f" "num_stages f = int k"
    "latency_cycles f = (\<Sum>j = 0..<k. 2 ^ k div 2 ^ (j + 1) + 1)"
    "map N_stage (stages f) = map (\<lambda>j. 2 ^ k div 2 ^ j) [0..<k]"
    "list_all stage_built (stages f)"
    "valid_pipe f = replicate (nat (latency_cycles f)) False"
    using FFT_new_result [OF n1] unfolding lg by blast
  have ok: "list_all stage_ok (stages f)"
    unfolding list_all_iff
  proof
    fix s assume s: "s \<in> set (stages f)"
    then have "N_stage s \<in> set (map N_stage (stages f))" by simp
    then obtain j where "j < k" "N_stage s = 2 ^ k div 2 ^ j"
      unfolding f(4) by auto
    then have "even (N_stage s)" using pow2_stage_sizes_even by simp
    moreover have "stage_built s" using f(5) s by (simp add: list_all_iff)
    ultimately show "stage_ok s" by (rule stage_built_even_ok [rotated])
  qed
  have "(\<Sum>j = 0..<k. (2::int) ^ k div 2 ^ (j + 1) + 1) \<ge> (\<Sum>j = 0..<k. 1)"
    by (intro sum_mono) (simp add: pos_imp_zdiv_nonneg_iff)
  then have "int k \<le> latency_cycles f" unfolding f(3) by simp
  then have L1: "1 \<le> nat (latency_cycles f)" using assms by simp
  have run: "\<exists>g'. FFT_run fp ins g = Inr g' \<and>
                out_valid (FFT_comb_logic False b g') = (length ins = nat (latency_cycles f)) \<and>
                internal_cnt g' = int32 (internal_cnt g + int (length ins))"
    if "list_all stage_ok (stages g) \<and>
        valid_pipe g = replicate (nat (latency_cycles f)) False \<and>
        ins \<noteq> [] \<and> fst (hd ins) \<and> length ins \<le> nat (latency_cycles f)" for fp g ins b
    using that L1 by (intro FFT_first_output) auto
  have idle: "FFT_clock fp False False x g = Inr g" if "True \<notin> set (valid_pipe g)"
    for fp g x
    using that by (rule FFT_clock_idle)
  show ?thesis
    using f(1,2,3,6) ok run idle by blast
qed

text \<open>For \<open>N = 4\<close> the latency is \<open>(2 + 1) + (1 + 1) = 5\<close>: \<^verbatim>\<open>out_valid\<close> is false four edges
  after an impulse block starts and true after the fifth.\<close>

theorem FFT_latency_law_witness:
  "\<exists>f. FFT_new 4 = Inr f \<and> latency_cycles f = 5 \<and>
       (\<exists>g'. FFT_run exact_arith [(True, Complex_t 1 0), (True, c_zero), (True, c_zero), (True, c_zero), (False, c_zero)] f
               = Inr g' \<and> out_valid (FFT_comb_logic False False g')) \<and>
       (\<exists>g'. FFT_run exact_arith [(True, Complex_t 1 0), (True, c_zero), (True, c_zero), (True, c_zero)] f
               = Inr g' \<and> \<not> out_valid (FFT_comb_logic False False g'))"
proof -
  have k: "(1::nat) \<le> 2" by simp
  have s: "(\<Sum>i = 0..<2. (2::int) ^ 2 div 2 ^ (i + 1) + 1) = 5"
    by (simp add: numeral_2_eq_2)
  from FFT_latency_law [OF k]
  obtain f where f: "FFT_new (2 ^ 2) = Inr f"
    "latency_cycles f = (\<Sum>i = 0..<2. 2 ^ 2 div 2 ^ (i + 1) + 1)"
    "valid_pipe f = replicate (nat (latency_cycles f)) False"
    "list_all stage_ok (stages f)"
    and run: "\<And>fp g ins b.
              list_all stage_ok (stages g) \<and>
              valid_pipe g = replicate (nat (latency_cycles f)) False \<and>
              ins \<noteq> [] \<and> fst (hd ins) \<and> length ins \<le> nat (latency_cycles f) \<Longrightarrow>
              (\<exists>g'. FFT_run fp ins g = Inr g' \<and>
                    out_valid (FFT_comb_logic False b g') = (length ins = nat (latency_cycles f)) \<and>
                    internal_cnt g' = int32 (internal_cnt g + int (length ins)))"
    by blast
  have L: "latency_cycles f = 5" using f(2) s by simp
  have a: "\<exists>g'. FFT_run exact_arith [(True, Complex_t 1 0), (True, c_zero), (True, c_zero), (True, c_zero), (False, c_zero)] f
               = Inr g' \<and> out_valid (FFT_comb_logic False False g')"
    using run [where fp = exact_arith and g = f and b = False and
        ins = "[(True, Complex_t 1 0), (True, c_zero), (True, c_zero), (True, c_zero),
                (False, c_zero)]"]
      f(3,4) L by auto
  have b: "\<exists>g'. FFT_run exact_arith [(True, Complex_t 1 0), (True, c_zero), (True, c_zero), (True, c_zero)] f
               = Inr g' \<and> \<not> out_valid (FFT_comb_logic False False g')"
    using run [where fp = exact_arith and g = f and b = False and
        ins = "[(True, Complex_t 1 0), (True, c_zero), (True, c_zero), (True, c_zero)]"]
      f(3,4) L by auto
  have "FFT_new 4 = Inr f" using f(1) by simp
  then show ?thesis using L a b by blast
qed

section \<open>The stagger scheduler's start pulses\<close>

lemma IFFT_run_snoc:
  "IFFT_run (ins @ [x]) s = IFFT_control_logic False x (IFFT_run ins s)"
  by (induction ins arbitrary: s) simp_all

lemma IFFT_run_Suc:
  "IFFT_run (map ins [0..<Suc t]) s =
     IFFT_control_logic False (ins t) (IFFT_run (map ins [0..<t]) s)"
  by (simp add: IFFT_run_snoc)

text \<open>Within the bound no product or sum of the scheduler wraps around.\<close>

lemma stagger_product_exact:
  assumes "0 \<le> h" "int c * h + 3 < 2 ^ 31" "i \<le> c"
  shows "int32 (int i * h) = int i * h"
proof -
  have "int i \<le> int c" using assms(3) by simp
  then have "int i * h \<le> int c * h" using assms(1) by (rule mult_right_mono)
  moreover have "0 \<le> int i * h" using assms(1) by simp
  ultimately show ?thesis using assms(2) by (intro int32_id) auto
qed

lemma stagger_bound_exact:
  assumes "0 \<le> h" "int c * h + 3 < 2 ^ 31"
  shows "int32 (int32 (int c * h) + 2) = int c * h + 2"
proof -
  have "0 \<le> int c * h" using assms(1) by simp
  then have "int32 (int c * h + 2) = int c * h + 2" using assms(2) by (intro int32_id) auto
  then show ?thesis using stagger_product_exact [OF assms, of c] by simp
qed

lemma stagger_pulses_exact:
  assumes "0 \<le> h" "int c * h + 3 < 2 ^ 31"
  shows "map (\<lambda>i. v = int32 (int i * h)) [0..<c] = map (\<lambda>i. v = int i * h) [0..<c]"
proof (rule map_cong [OF refl])
  fix i assume "i \<in> set [0..<c]"
  then have "i \<le> c" by simp
  then show "(v = int32 (int i * h)) = (v = int i * h)"
    using stagger_product_exact [OF assms] by simp
qed

text \<open>An edge of an active or accepting scheduler within the bound, without wrap-around
  but for the counter.\<close>

lemma IFFT_active_step:
  assumes "0 \<le> hop s" "int (num_cores s) * hop s + 3 < 2 ^ 31"
    and "start \<or> active_stagger s"
  shows "IFFT_control_logic False start s =
     s\<lparr>active_stagger := \<not> stagger_cnt start s > int (num_cores s) * hop s + 2,
       stagger_counter := int32 (stagger_cnt start s + 1),
       dma_starts := map (\<lambda>i. stagger_cnt start s = int i * hop s) [0..<num_cores s]\<rparr>"
proof -
  have "IFFT_control_logic False start s =
     (let cnt_now = stagger_cnt start s;
          s2 = s\<lparr>active_stagger := True, stagger_counter := 0,
                 dma_starts := map (\<lambda>i. cnt_now = int32 (int i * hop s)) [0..<num_cores s]\<rparr>;
          s3 = s2\<lparr>stagger_counter := int32 (cnt_now + 1)\<rparr>
      in if cnt_now > int32 (int32 (int (num_cores s) * hop s) + 2)
         then s3\<lparr>active_stagger := False\<rparr> else s3)"
    using assms(3) by (auto simp add: IFFT_control_logic_def stagger_cnt_def Let_def)
  also have "\<dots> =
     (let cnt_now = stagger_cnt start s;
          s2 = s\<lparr>active_stagger := True, stagger_counter := 0,
                 dma_starts := map (\<lambda>i. cnt_now = int i * hop s) [0..<num_cores s]\<rparr>;
          s3 = s2\<lparr>stagger_counter := int32 (cnt_now + 1)\<rparr>
      in if cnt_now > int (num_cores s) * hop s + 2
         then s3\<lparr>active_stagger := False\<rparr> else s3)"
    unfolding stagger_bound_exact [OF assms(1,2)] stagger_pulses_exact [OF assms(1,2)] ..
  also have "\<dots> =
     s\<lparr>active_stagger := \<not> stagger_cnt start s > int (num_cores s) * hop s + 2,
       stagger_counter := int32 (stagger_cnt start s + 1),
       dma_starts := map (\<lambda>i. stagger_cnt start s = int i * hop s) [0..<num_cores s]\<rparr>"
    by (simp add: Let_def)
  finally show ?thesis .
qed

lemma stagger_accept_step:
  assumes "\<not> active_stagger s0" "0 \<le> hop s0" "int (num_cores s0) * hop s0 + 3 < 2 ^ 31"
  shows "stagger_at s0 0 (IFFT_control_logic False True s0)"
proof -
  have "0 \<le> int (num_cores s0) * hop s0" using assms(2) by simp
  moreover have "stagger_cnt True s0 = 0" using assms(1) by (simp add: stagger_cnt_def)
  ultimately show ?thesis
    unfolding IFFT_active_step [OF assms(2,3), of True, simplified]
    by (simp add: stagger_at_def)
qed

lemma stagger_count_step:
  assumes "stagger_at s0 t s" "int t < int (num_cores s0) * hop s0 + 3"
    and "0 \<le> hop s0" "int (num_cores s0) * hop s0 + 3 < 2 ^ 31"
  shows "stagger_at s0 (Suc t) (IFFT_control_logic False st s)"
proof -
  have "int32 (int t + 1) = int t + 1" using assms(2,4) by (intro int32_id) auto
  then have cnt: "stagger_counter s = int t + 1" "active_stagger s"
    "num_cores s = num_cores s0" "hop s = hop s0"
    using assms(1,2) by (simp_all add: stagger_at_def)
  have h: "0 \<le> hop s" "int (num_cores s) * hop s + 3 < 2 ^ 31" "st \<or> active_stagger s"
    using cnt assms(3,4) by simp_all
  have c: "stagger_cnt st s = int (Suc t)" using cnt by (simp add: stagger_cnt_def)
  show ?thesis
    unfolding IFFT_active_step [OF h] c
    using cnt(3,4) by (auto simp add: stagger_at_def)
qed

lemma stagger_window:
  assumes "\<not> active_stagger s0" "0 \<le> hop s0" "int (num_cores s0) * hop s0 + 3 < 2 ^ 31"
    and "ins 0"
  shows "int t \<le> int (num_cores s0) * hop s0 + 3 \<Longrightarrow>
         stagger_at s0 t (IFFT_run (map ins [0..<Suc t]) s0)"
proof (induction t)
  case 0
  show ?case using stagger_accept_step [OF assms(1,2,3)] assms(4) by simp
next
  case (Suc t)
  then have "stagger_at s0 t (IFFT_run (map ins [0..<Suc t]) s0)" by simp
  moreover have "int t < int (num_cores s0) * hop s0 + 3" using Suc.prems by simp
  ultimately show ?case
    unfolding IFFT_run_Suc [of ins "Suc t"] using assms(2,3) by (rule stagger_count_step)
qed

lemma stagger_at_done:
  assumes "stagger_at s0 t s" "int (num_cores s0) * hop s0 + 3 \<le> int t"
  shows "stagger_done s0 (IFFT_control_logic False False s)"
  using assms by (auto simp add: stagger_at_def stagger_done_def IFFT_control_logic_def Let_def)

lemma stagger_done_step:
  assumes "stagger_done s0 s"
  shows "stagger_done s0 (IFFT_control_logic False False s)"
  using assms by (auto simp add: stagger_done_def IFFT_control_logic_def Let_def)

lemma stagger_after_window:
  assumes "\<not> active_stagger s0" "0 \<le> hop s0" "int (num_cores s0) * hop s0 + 3 < 2 ^ 31"
    and "ins 0" "\<forall>j\<ge>1. \<not> ins j"
  shows "int (num_cores s0) * hop s0 + 3 < int t \<Longrightarrow>
         stagger_done s0 (IFFT_run (map ins [0..<Suc t]) s0)"
proof (induction t)
  case 0
  have "0 \<le> int (num_cores s0) * hop s0" using assms(2) by simp
  with 0 show ?case by simp
next
  case (Suc t)
  have f: "\<not> ins (Suc t)" using assms(5) by simp
  show ?case
  proof (cases "int (num_cores s0) * hop s0 + 3 < int t")
    case True
    then have "stagger_done s0 (IFFT_run (map ins [0..<Suc t]) s0)" by (rule Suc.IH)
    then show ?thesis
      unfolding IFFT_run_Suc [of ins "Suc t"] using f by (simp add: stagger_done_step)
  next
    case False
    then have e: "int t = int (num_cores s0) * hop s0 + 3" using Suc.prems by simp
    then have "stagger_at s0 t (IFFT_run (map ins [0..<Suc t]) s0)"
      using stagger_window [of s0 ins t] assms(1,2,3,4) by simp
    then show ?thesis
      unfolding IFFT_run_Suc [of ins "Suc t"] using f e
      by (simp add: stagger_at_done)
  qed
qed

lemma stagger_cnt_in_window:
  assumes "\<not> active_stagger s0" "0 \<le> hop s0" "int (num_cores s0) * hop s0 + 3 < 2 ^ 31"
    and "ins 0"
    and "int t \<le> int (num_cores s0) * hop s0 + 3"
  shows "stagger_cnt (ins t) (IFFT_run (map ins [0..<t]) s0) = int t"
proof (cases t)
  case 0
  then show ?thesis using assms(1,4) by (simp add: stagger_cnt_def)
next
  case (Suc u)
  then have u: "int u < int (num_cores s0) * hop s0 + 3" using assms(5) by simp
  then have "stagger_at s0 u (IFFT_run (map ins [0..<Suc u]) s0)"
    using stagger_window [of s0 ins u] assms(1,2,3,4) by simp
  moreover have "int32 (int u + 1) = int u + 1" using u assms(3) by (intro int32_id) auto
  ultimately show ?thesis using Suc u by (simp add: stagger_at_def stagger_cnt_def)
qed

text \<open>
  C3, as the specification states it for every hop size, fails. With two cores and a hop
  of \<open>2^30\<close> the bound \<open>num_cores * hop + 2\<close> overflows to a negative number: the edge that
  accepts the start pulses core 0 and returns the scheduler to idle at once, and without
  a further start every later edge leaves it idle with no pulse, so core 1 is never
  started. With two cores and a hop of \<open>- 1\<close> core 0 is pulsed by the accepting edge, the
  next edge ends the sequence, and core 1 is never started either.
\<close>

theorem stagger_pulses_not_for_every_hop:
  "IFFT_run [True] stagger_wide =
     stagger_wide\<lparr>stagger_counter := 1, dma_starts := [True, False]\<rparr> \<and>
   IFFT_run [True, False] stagger_wide =
     stagger_wide\<lparr>stagger_counter := 1, dma_starts := [False, False]\<rparr> \<and>
   IFFT_control_logic False False
       (stagger_wide\<lparr>stagger_counter := 1, dma_starts := [False, False]\<rparr>) =
     stagger_wide\<lparr>stagger_counter := 1, dma_starts := [False, False]\<rparr> \<and>
   IFFT_run [True] stagger_back =
     stagger_back\<lparr>active_stagger := True, stagger_counter := 1,
                    dma_starts := [True, False]\<rparr> \<and>
   IFFT_run [True, False] stagger_back =
     stagger_back\<lparr>stagger_counter := 2, dma_starts := [False, False]\<rparr> \<and>
   IFFT_control_logic False False
       (stagger_back\<lparr>stagger_counter := 2, dma_starts := [False, False]\<rparr>) =
     stagger_back\<lparr>stagger_counter := 2, dma_starts := [False, False]\<rparr>"
  by (simp add: stagger_wide_def stagger_back_def IFFT_control_logic_def Let_def int32_def
        upt_rec numeral_2_eq_2)

text \<open>
  C3, amended. The scheduler is idle, the hop size is not negative,
  \<open>num_cores * hop + 3 < 2^31\<close> (so that neither the bound nor the counter overflows) and
  \<^verbatim>\<open>start\<close> is observed at edge 0. For every edge \<open>t\<close> up to \<open>num_cores * hop + 3\<close>, whatever
  \<^verbatim>\<open>start\<close> does after edge 0: the counter that \<^verbatim>\<open>control_logic\<close> compares at that edge is
  \<open>t\<close>, and after the edge \<^verbatim>\<open>dma_starts[i]\<close> is true exactly if \<open>t = i * hop\<close>, for every
  core \<open>i\<close>; the scheduler stays active up to edge \<open>num_cores * hop + 2\<close> and is idle after
  edge \<open>num_cores * hop + 3\<close>. So core \<open>i\<close> is started \<open>i * hop\<close> edges after core 0, once.
  When \<^verbatim>\<open>start\<close> is a single pulse, \<^verbatim>\<open>dma_starts[i]\<close> is true after edge \<open>t\<close> exactly if
  \<open>t = i * hop\<close> for every \<open>t\<close>, also after the sequence.
\<close>

theorem stagger_start_pulses:
  assumes "\<not> active_stagger s0" "0 \<le> hop s0" "int (num_cores s0) * hop s0 + 3 < 2 ^ 31"
    and "ins 0"
  shows "(\<forall>t. int t \<le> int (num_cores s0) * hop s0 + 3 \<longrightarrow>
            stagger_cnt (ins t) (IFFT_run (map ins [0..<t]) s0) = int t \<and>
            length (dma_starts (IFFT_run (map ins [0..<Suc t]) s0)) = num_cores s0 \<and>
            (\<forall>i<num_cores s0.
               dma_starts (IFFT_run (map ins [0..<Suc t]) s0) ! i = (int t = int i * hop s0)) \<and>
            active_stagger (IFFT_run (map ins [0..<Suc t]) s0) =
              (int t < int (num_cores s0) * hop s0 + 3)) \<and>
         ((\<forall>j\<ge>1. \<not> ins j) \<longrightarrow>
            (\<forall>t. \<forall>i<num_cores s0.
               dma_starts (IFFT_run (map ins [0..<Suc t]) s0) ! i = (int t = int i * hop s0)))"
proof -
  have w: "stagger_cnt (ins t) (IFFT_run (map ins [0..<t]) s0) = int t \<and>
           length (dma_starts (IFFT_run (map ins [0..<Suc t]) s0)) = num_cores s0 \<and>
           (\<forall>i<num_cores s0.
               dma_starts (IFFT_run (map ins [0..<Suc t]) s0) ! i = (int t = int i * hop s0)) \<and>
           active_stagger (IFFT_run (map ins [0..<Suc t]) s0) =
              (int t < int (num_cores s0) * hop s0 + 3)"
    if t: "int t \<le> int (num_cores s0) * hop s0 + 3" for t
  proof -
    have "stagger_at s0 t (IFFT_run (map ins [0..<Suc t]) s0)"
      using stagger_window [of s0 ins t] assms t by simp
    moreover have "stagger_cnt (ins t) (IFFT_run (map ins [0..<t]) s0) = int t"
      using stagger_cnt_in_window [of s0 ins t] assms t by simp
    ultimately show ?thesis
      by (simp add: stagger_at_def)
  qed
  have a: "dma_starts (IFFT_run (map ins [0..<Suc t]) s0) ! i = (int t = int i * hop s0)"
    if single: "\<forall>j\<ge>1. \<not> ins j" and i: "i < num_cores s0" for t i
  proof (cases "int t \<le> int (num_cores s0) * hop s0 + 3")
    case True
    then show ?thesis using w i by blast
  next
    case False
    then have "stagger_done s0 (IFFT_run (map ins [0..<Suc t]) s0)"
      using stagger_after_window [of s0 ins t] assms single by simp
    then have "\<not> dma_starts (IFFT_run (map ins [0..<Suc t]) s0) ! i"
      using i by (simp add: stagger_done_def)
    moreover have "int i * hop s0 \<le> int (num_cores s0) * hop s0"
      using i assms(2) by (intro mult_right_mono) auto
    ultimately show ?thesis using False by auto
  qed
  show ?thesis using w a by blast
qed

text \<open>Two cores with hop 1: core 0 is started by edge 0, core 1 by edge 1, neither
  again; the scheduler is active after edge 4 and idle after edge 5.\<close>

theorem stagger_start_pulses_witness:
  "dma_starts (IFFT_run (map one_pulse [0..<Suc 0]) stagger_reset) ! 0 \<and>
   \<not> dma_starts (IFFT_run (map one_pulse [0..<Suc 0]) stagger_reset) ! 1 \<and>
   \<not> dma_starts (IFFT_run (map one_pulse [0..<Suc 1]) stagger_reset) ! 0 \<and>
   dma_starts (IFFT_run (map one_pulse [0..<Suc 1]) stagger_reset) ! 1 \<and>
   \<not> dma_starts (IFFT_run (map one_pulse [0..<Suc 7]) stagger_reset) ! 1 \<and>
   active_stagger (IFFT_run (map one_pulse [0..<Suc 4]) stagger_reset) \<and>
   \<not> active_stagger (IFFT_run (map one_pulse [0..<Suc 5]) stagger_reset)"
proof -
  have h: "\<not> active_stagger stagger_reset" "0 \<le> hop stagger_reset"
    "int (num_cores stagger_reset) * hop stagger_reset + 3 < 2 ^ 31" "one_pulse 0"
    by (simp_all add: stagger_reset_def one_pulse_def)
  have c: "num_cores stagger_reset = 2" "hop stagger_reset = 1"
    by (simp_all add: stagger_reset_def)
  have sp: "\<forall>j\<ge>1. \<not> one_pulse j" by (simp add: one_pulse_def)
  note t = stagger_start_pulses [of stagger_reset one_pulse, OF h]
  have p: "dma_starts (IFFT_run (map one_pulse [0..<Suc t]) stagger_reset) ! i = (int t = int i)"
    if "i < 2" for t i
    using t [THEN conjunct2] sp that unfolding c by simp
  have a: "active_stagger (IFFT_run (map one_pulse [0..<Suc t]) stagger_reset) = (int t < 5)"
    if "int t \<le> 5" for t
    using t [THEN conjunct1] that unfolding c by simp
  show ?thesis
    using p [of 0 0] p [of 1 0] p [of 0 1] p [of 1 1] p [of 1 7] a [of 4] a [of 5] by simp
qed


end
